theory Spec2Isabelle
  imports Main "HOL-Library.Multiset" "HOL-Library.Sublist"
begin

section \<open>Errors raised by the generator\<close>

datatype error =
  TypeError | ValueError | AssertionError | IndexError | ZeroDivisionError | OverflowError | OSError

section \<open>Data model\<close>

text \<open>
  Node indices are the elements of \<^verbatim>\<open>range(number_of_nodes + f)\<close>. A partition is a list of
  blocks, a scenario a pair of a leader and a partition, a testcase one scenario per round.
\<close>

type_synonym partition = "nat list list"
type_synonym scenario = "nat \<times> partition"
type_synonym testcase = "scenario list"

text \<open>
  The dynamically typed arguments of the constructor and of \<^verbatim>\<open>run\<close>. In Python \<^verbatim>\<open>bool\<close> is a
  subclass of \<^verbatim>\<open>int\<close>, so \<^verbatim>\<open>isinstance(True, int)\<close> holds and \<^verbatim>\<open>True\<close> counts as 1.
  \<^verbatim>\<open>PyNone\<close> stands for \<^verbatim>\<open>None\<close> and for every other object that is neither an \<^verbatim>\<open>int\<close> nor a
  \<^verbatim>\<open>str\<close> (a float, a list): the checks do not tell them apart.
\<close>

datatype pyval = PyInt int | PyBool bool | PyStr string | PyNone

fun isinstance_int :: "pyval \<Rightarrow> bool" where
  "isinstance_int (PyInt i) = True"
| "isinstance_int (PyBool b) = True"
| "isinstance_int v = False"

fun isinstance_str :: "pyval \<Rightarrow> bool" where
  "isinstance_str (PyStr s) = True"
| "isinstance_str v = False"

fun isinstance_bool :: "pyval \<Rightarrow> bool" where
  "isinstance_bool (PyBool b) = True"
| "isinstance_bool v = False"

fun int_of :: "pyval \<Rightarrow> int" where
  "int_of (PyInt i) = i"
| "int_of (PyBool b) = (if b then 1 else 0)"
| "int_of v = 0"

fun str_of :: "pyval \<Rightarrow> string" where
  "str_of (PyStr s) = s"
| "str_of v = []"

fun bool_of :: "pyval \<Rightarrow> bool" where
  "bool_of (PyBool b) = b"
| "bool_of v = False"

text \<open>The attributes of a \<^verbatim>\<open>Generator\<close> instance (the logger apart).\<close>

record Generator =
  number_of_nodes :: int
  number_of_partitions :: int
  number_of_rounds :: int
  folder_path :: string
  machine_index :: int
  number_of_machines :: int
  filter' :: "testcase \<Rightarrow> bool"
  f :: int
  nodes :: "nat list"

text \<open>Python's \<^verbatim>\<open>xs[:e]\<close> and \<^verbatim>\<open>xs[i]\<close>: a negative bound or index counts from the end.\<close>

definition slice_to :: "'a list \<Rightarrow> int \<Rightarrow> 'a list" where
  "slice_to xs e = (if 0 \<le> e then take (nat e) xs else take (nat (int (length xs) + e)) xs)"

definition getitem :: "'a list \<Rightarrow> int \<Rightarrow> error + 'a" where
  "getitem xs i =
     (if 0 \<le> i \<and> i < int (length xs) then Inr (xs ! nat i)
      else if i < 0 \<and> - int (length xs) \<le> i then Inr (xs ! nat (int (length xs) + i))
      else Inl IndexError)"

definition target_nodes :: "'a Generator_scheme \<Rightarrow> nat list" where
  "target_nodes g = slice_to (nodes g) (f g)"

definition get_twin :: "'a Generator_scheme \<Rightarrow> nat \<Rightarrow> error + nat" where
  "get_twin g node =
     (if node \<notin> set (target_nodes g) then Inl AssertionError
      else getitem (nodes g) (number_of_nodes g + int node))"

section \<open>Combinatorics\<close>

text \<open>
  The Stirling numbers of the second kind by their standard recurrence. This is the
  mathematical reference the generator's closed form and its enumeration are compared with.
\<close>

fun Stirling :: "nat \<Rightarrow> nat \<Rightarrow> nat" where
  "Stirling 0 0 = 1"
| "Stirling 0 (Suc k) = 0"
| "Stirling (Suc n) 0 = 0"
| "Stirling (Suc n) (Suc k) = Suc k * Stirling n (Suc k) + Stirling n k"

text \<open>
  The alternating sum of the closed form, with binomial coefficients in place of the
  quotients of factorials.
\<close>

definition alternating_sum :: "nat \<Rightarrow> nat \<Rightarrow> int" where
  "alternating_sum n k = (\<Sum>i\<le>k. (- 1) ^ i * int (k choose i) * int (k - i) ^ n)"

text \<open>
  \<^verbatim>\<open>Generator.S(n, k)\<close>: the assertion, the list comprehension over \<^verbatim>\<open>range(k+1)\<close> with
  Python's floor division \<^verbatim>\<open>//\<close> on unbounded integers, and the final division by \<^verbatim>\<open>f(k)\<close>.
  The arguments are a list length and a validated positive count; every factorial is
  taken of a number between 0 and k.
\<close>

definition S_term :: "nat \<Rightarrow> nat \<Rightarrow> nat \<Rightarrow> int" where
  "S_term n k i = (- 1) ^ i * (int (fact k) div int (fact i) div int (fact (k - i))) * (int k - int i) ^ n"

definition S :: "nat \<Rightarrow> nat \<Rightarrow> error + int" where
  "S n k =
     (if \<not> (n > 0 \<and> k > 0 \<and> n \<ge> k) then Inl AssertionError
      else Inr (sum_list (map (S_term n k) [0..<k + 1]) div int (fact k)))"

text \<open>
  \<^verbatim>\<open>testcases_length\<close>: the forecast, computed from \<^verbatim>\<open>S\<close>, the number of target nodes and
  the round count alone, on unbounded integers. The constructor makes the round count
  positive and nothing assigns it afterwards; with a negative one the source would compute a
  float, which this model does not hold.
\<close>

definition testcases_length :: "'a Generator_scheme \<Rightarrow> error + int" where
  "testcases_length g =
     (case S (length (nodes g)) (nat (number_of_partitions g)) of
        Inl e \<Rightarrow> Inl e
      | Inr tot \<Rightarrow>
          Inr ((tot * int (length (target_nodes g))) ^ nat (number_of_rounds g)))"

text \<open>
  \<^verbatim>\<open>Generator.__init__\<close>: the type check, the value check, the derived attributes, the check
  of the partition count against the node list, and the evaluation of
  \<^verbatim>\<open>testcases_length\<close> for the warning. The default filter is \<^verbatim>\<open>bool\<close>, which accepts a
  non-empty testcase.
\<close>

definition init ::
  "pyval \<Rightarrow> pyval \<Rightarrow> pyval \<Rightarrow> (testcase \<Rightarrow> bool) option \<Rightarrow> pyval \<Rightarrow> pyval \<Rightarrow> pyval
     \<Rightarrow> error + Generator" where
  "init nn np nr flt fp mi nm =
     (if \<not> (isinstance_int nn \<and> isinstance_int np \<and> isinstance_int nr \<and> isinstance_str fp
             \<and> isinstance_int mi \<and> isinstance_int nm)
      then Inl TypeError
      else if \<not> (int_of nn > 0 \<and> int_of np > 0 \<and> int_of nr > 0 \<and> int_of mi > 0
                  \<and> int_of nm \<ge> int_of mi)
      then Inl ValueError
      else
        let f0 = (int_of nn - 1) div 3;
            g = \<lparr> number_of_nodes = int_of nn, number_of_partitions = int_of np,
                  number_of_rounds = int_of nr, folder_path = str_of fp,
                  machine_index = int_of mi, number_of_machines = int_of nm,
                  filter' = (case flt of None \<Rightarrow> (\<lambda>t. t \<noteq> []) | Some p \<Rightarrow> p),
                  f = f0, nodes = [0..<nat (int_of nn + f0)] \<rparr>
        in if int (length (nodes g)) < number_of_partitions g then Inl ValueError
           else (case testcases_length g of Inl e \<Rightarrow> Inl e | Inr tot \<Rightarrow> Inr g))"

section \<open>Enumeration of the partitions\<close>

text \<open>
  The first loop of \<^verbatim>\<open>stirling2\<close>: \<^verbatim>\<open>for i in range(len(s)): s[i].append([n-1])\<close>.
\<close>

definition append_loop :: "nat \<Rightarrow> partition list \<Rightarrow> partition list" where
  "append_loop x s = fold (\<lambda>i s. s[i := s ! i @ [[x]]]) [0..<length s] s"

text \<open>
  The second loop: \<^verbatim>\<open>k_s_n1_k[i][i // len(tmp)] += [n-1]\<close> for every \<^verbatim>\<open>i\<close> of
  \<^verbatim>\<open>range(len(tmp)*k)\<close>, on the concatenation of k deep copies of \<^verbatim>\<open>tmp\<close>. The outer index is
  in range by the loop bound; the inner one raises IndexError when the partition has too
  few blocks.
\<close>

definition insert_step ::
  "nat \<Rightarrow> nat \<Rightarrow> nat \<Rightarrow> error + partition list \<Rightarrow> error + partition list" where
  "insert_step x len i acc =
     (case acc of
        Inl e \<Rightarrow> Inl e
      | Inr ks \<Rightarrow>
          (let p = ks ! i; j = i div len
           in if j < length p then Inr (ks[i := p[j := p ! j @ [x]]]) else Inl IndexError))"

definition insert_loop :: "nat \<Rightarrow> nat \<Rightarrow> partition list \<Rightarrow> error + partition list" where
  "insert_loop x k tmp =
     fold (insert_step x (length tmp)) [0..<length tmp * k] (Inr (concat (replicate k tmp)))"

text \<open>The nested function \<^verbatim>\<open>stirling2(n, k)\<close> of \<^verbatim>\<open>make_partitions\<close>.\<close>

function stirling2 :: "nat \<Rightarrow> nat \<Rightarrow> error + partition list" where
  "stirling2 n k =
     (if \<not> (n > 0 \<and> k > 0) then Inl AssertionError
      else if k = 1 then Inr [[[0..<n]]]
      else if k = n then Inr [map (\<lambda>x. [x]) [0..<n]]
      else
        (case stirling2 (n - 1) (k - 1) of
           Inl e \<Rightarrow> Inl e
         | Inr s_n1_k1 \<Rightarrow>
             (case stirling2 (n - 1) k of
                Inl e \<Rightarrow> Inl e
              | Inr tmp \<Rightarrow>
                  (case insert_loop (n - 1) k tmp of
                     Inl e \<Rightarrow> Inl e
                   | Inr k_s_n1_k \<Rightarrow> Inr (append_loop (n - 1) s_n1_k1 @ k_s_n1_k)))))"
  by pat_completeness auto
termination
  by (relation "measure (\<lambda>(n, k). n)") auto

declare stirling2.simps [simp del]

definition make_partitions :: "'a Generator_scheme \<Rightarrow> error + partition list" where
  "make_partitions g = stirling2 (length (nodes g)) (nat (number_of_partitions g))"

section \<open>Composition with leaders and rounds\<close>

definition combine_partitions_with_leaders ::
  "'a Generator_scheme \<Rightarrow> partition list \<Rightarrow> scenario list" where
  "combine_partitions_with_leaders g partitions =
     concat (map (\<lambda>partition. map (\<lambda>leader. (leader, partition)) (target_nodes g)) partitions)"

text \<open>
  \<^verbatim>\<open>itertools.product(xs, repeat=r)\<close>: the tuples in lexicographic order, the last position
  varying fastest.
\<close>

fun product_repeat :: "'a list \<Rightarrow> nat \<Rightarrow> 'a list list" where
  "product_repeat xs 0 = [[]]"
| "product_repeat xs (Suc r) = concat (map (\<lambda>x. map (\<lambda>t. x # t) (product_repeat xs r)) xs)"

definition combine_scenarios_with_rounds ::
  "'a Generator_scheme \<Rightarrow> scenario list \<Rightarrow> error + testcase list" where
  "combine_scenarios_with_rounds g scenarios =
     (if number_of_rounds g < 0 then Inl ValueError
      else Inr (product_repeat scenarios (nat (number_of_rounds g))))"

section \<open>Sharding and chunking\<close>

text \<open>
  \<^verbatim>\<open>itertools.islice(it, start, None, step)\<close>, as one forward pass that counts positions:
  the element at position \<^verbatim>\<open>pos\<close> is kept when \<^verbatim>\<open>pos = start + j * step\<close> for some j.
\<close>

fun islice_from :: "nat \<Rightarrow> nat \<Rightarrow> nat \<Rightarrow> 'a list \<Rightarrow> 'a list" where
  "islice_from pos start step [] = []"
| "islice_from pos start step (x # xs) =
     (if start \<le> pos \<and> (pos - start) mod step = 0 then [x] else [])
       @ islice_from (Suc pos) start step xs"

definition islice :: "'a list \<Rightarrow> nat \<Rightarrow> nat \<Rightarrow> 'a list" where
  "islice it start step = islice_from 0 start step it"

text \<open>
  \<^verbatim>\<open>more_itertools.distribute(n, iterable)\<close>: ValueError when \<^verbatim>\<open>n < 1\<close>, otherwise
  \<^verbatim>\<open>[islice(it, index, None, n) for index, it in enumerate(tee(iterable, n))]\<close>.
\<close>

definition distribute :: "int \<Rightarrow> 'a list \<Rightarrow> error + 'a list list" where
  "distribute n iterable =
     (if n < 1 then Inl ValueError
      else Inr (map (\<lambda>index. islice iterable index (nat n)) [0..<nat n]))"

text \<open>
  \<^verbatim>\<open>more_itertools.ichunked(iterable, n)\<close>, consumed chunk by chunk in order: while the source
  has an item, the next \<^verbatim>\<open>n\<close> items form a chunk. On a non-empty source a negative \<^verbatim>\<open>n\<close>
  makes \<^verbatim>\<open>islice\<close> raise ValueError, and \<^verbatim>\<open>n = 0\<close> yields empty chunks forever: the
  result is \<^verbatim>\<open>None\<close> when the iteration does not end.
\<close>

function chunks_of :: "'a list \<Rightarrow> nat \<Rightarrow> 'a list list" where
  "chunks_of xs n = (if xs = [] \<or> n = 0 then [] else take n xs # chunks_of (drop n xs) n)"
  by pat_completeness auto
termination
  by (relation "measure (\<lambda>(xs, n). length xs)") auto

declare chunks_of.simps [simp del]

definition ichunked :: "'a list \<Rightarrow> int \<Rightarrow> (error + 'a list list) option" where
  "ichunked iterable n =
     (if iterable = [] then Some (Inr [])
      else if n < 0 then Some (Inl ValueError)
      else if n = 0 then None
      else Some (Inr (chunks_of iterable (nat n))))"

section \<open>The sink\<close>

text \<open>
  What \<^verbatim>\<open>JSONFormat.make\<close> hands to \<^verbatim>\<open>dumps\<close>: the node count, the twin count and one entry
  per accepted testcase, each a pair of dictionaries keyed by the 1-based round number
  (association lists in insertion order). The serialisation to a string is not modelled:
  a file holds the documents appended to it.
\<close>

type_synonym round_leaders = "(nat \<times> nat list) list"
type_synonym round_partitions = "(nat \<times> partition) list"

record json_doc =
  num_of_nodes :: int
  num_of_twins :: int
  scenarios :: "(round_leaders \<times> round_partitions) list"

text \<open>\<^verbatim>\<open>JSONFormat._format_scenario\<close>, from round \<^verbatim>\<open>round_number\<close> of the enumeration on.\<close>

fun format_rounds ::
  "'a Generator_scheme \<Rightarrow> nat \<Rightarrow> testcase \<Rightarrow> error + (round_leaders \<times> round_partitions)" where
  "format_rounds g round_number [] = Inr ([], [])"
| "format_rounds g round_number ((leader, part) # rest) =
     (case (if leader \<in> set (target_nodes g)
            then (case get_twin g leader of Inl e \<Rightarrow> Inl e | Inr twin \<Rightarrow> Inr [leader, twin])
            else Inr [leader]) of
        Inl e \<Rightarrow> Inl e
      | Inr leaders \<Rightarrow>
          (case format_rounds g (Suc round_number) rest of
             Inl e \<Rightarrow> Inl e
           | Inr (x, y) \<Rightarrow>
               Inr ((round_number + 1, leaders) # x, (round_number + 1, part) # y)))"

definition format_scenario ::
  "'a Generator_scheme \<Rightarrow> testcase \<Rightarrow> error + (round_leaders \<times> round_partitions)" where
  "format_scenario g testcase = format_rounds g 0 testcase"

fun make_scenarios ::
  "'a Generator_scheme \<Rightarrow> (testcase \<Rightarrow> bool) \<Rightarrow> testcase list
     \<Rightarrow> error + (round_leaders \<times> round_partitions) list" where
  "make_scenarios g flt [] = Inr []"
| "make_scenarios g flt (testcase # rest) =
     (if flt testcase
      then (case format_scenario g testcase of
              Inl e \<Rightarrow> Inl e
            | Inr xy \<Rightarrow>
                (case make_scenarios g flt rest of Inl e \<Rightarrow> Inl e | Inr r \<Rightarrow> Inr (xy # r)))
      else make_scenarios g flt rest)"

definition JSONFormat_make ::
  "'a Generator_scheme \<Rightarrow> testcase list \<Rightarrow> (testcase \<Rightarrow> bool) \<Rightarrow> error + json_doc" where
  "JSONFormat_make g testcases flt =
     (case make_scenarios g flt testcases of
        Inl e \<Rightarrow> Inl e
      | Inr sc \<Rightarrow>
          Inr \<lparr> num_of_nodes = number_of_nodes g, num_of_twins = f g, scenarios = sc \<rparr>)"

text \<open>
  The file system: the directories that exist, under the names the program uses for them,
  and the documents appended to each file. \<^verbatim>\<open>open(join(folder, filename), 'a')\<close> raises an
  OSError when the folder does not exist or the path is a directory.
\<close>

record fs =
  dirs :: "string set"
  files :: "string \<rightharpoonup> json_doc list"

definition join :: "string \<Rightarrow> string \<Rightarrow> string" where
  "join a b =
     (if b \<noteq> [] \<and> hd b = CHR ''/'' then b
      else if a = [] \<or> last a = CHR ''/'' then a @ b
      else a @ ''/'' @ b)"

definition append_file :: "fs \<Rightarrow> string \<Rightarrow> string \<Rightarrow> json_doc \<Rightarrow> error + fs" where
  "append_file s folder filename data =
     (let path = join folder filename
      in if folder \<in> dirs s \<and> path \<notin> dirs s
         then Inr (s\<lparr>files := (files s)(path \<mapsto>
                     (case files s path of None \<Rightarrow> [] | Some ds \<Rightarrow> ds) @ [data])\<rparr>)
         else Inl OSError)"

text \<open>Decimal formatting of an integer in an f-string.\<close>

function str_nat :: "nat \<Rightarrow> string" where
  "str_nat n =
     (if n < 10 then [char_of (48 + n)] else str_nat (n div 10) @ [char_of (48 + n mod 10)])"
  by pat_completeness auto
termination
  by (relation "measure (\<lambda>n. n)") auto

declare str_nat.simps [simp del]

definition str :: "int \<Rightarrow> string" where
  "str i = (if i < 0 then CHR ''-'' # str_nat (nat (- i)) else str_nat (nat i))"

section \<open>Writing the chunks\<close>

text \<open>
  The loop of \<^verbatim>\<open>_print\<close> over the chunks, from chunk number \<^verbatim>\<open>i\<close> on. An exception ends
  the loop; the files written before stay.
\<close>

fun write_chunks ::
  "'a Generator_scheme \<Rightarrow> nat \<Rightarrow> bool \<Rightarrow> nat \<Rightarrow> testcase list list \<Rightarrow> fs
     \<Rightarrow> fs \<times> error option" where
  "write_chunks g process_id dryrun i [] s = (s, None)"
| "write_chunks g process_id dryrun i (chunk # rest) s =
     (let basename = ''testcase-'' @ str (machine_index g) @ ''-'' @ str (int process_id);
          filename = (if dryrun then ''tmp-'' @ basename else basename @ ''-'' @ str (int i))
      in case JSONFormat_make g chunk (filter' g) of
           Inl e \<Rightarrow> (s, Some e)
         | Inr data \<Rightarrow>
             (case append_file s (folder_path g) filename data of
                Inl e \<Rightarrow> (s, Some e)
              | Inr s' \<Rightarrow> write_chunks g process_id dryrun (Suc i) rest s'))"

text \<open>
  \<^verbatim>\<open>Generator._print\<close>, the body of one worker process: the file system it leaves and the
  exception that ended it, if any; \<^verbatim>\<open>None\<close> when it never ends.
\<close>

definition print_single ::
  "'a Generator_scheme \<Rightarrow> testcase list \<Rightarrow> nat \<Rightarrow> bool \<Rightarrow> int \<Rightarrow> fs
     \<Rightarrow> (fs \<times> error option) option" where
  "print_single g testcases process_id dryrun testcases_per_file s =
     (case ichunked testcases testcases_per_file of
        None \<Rightarrow> None
      | Some (Inl e) \<Rightarrow> Some (s, Some e)
      | Some (Inr chunks) \<Rightarrow> Some (write_chunks g process_id dryrun 0 chunks s))"

section \<open>The worker processes\<close>

text \<open>
  \<^verbatim>\<open>Generator.print\<close> starts one process per worker and joins them all. An exception in a
  worker ends that process with exit code 1 and goes no further: \<^verbatim>\<open>join\<close> returns as for a
  process that succeeded. The workers write to files whose names differ in the process
  id, so they are run here one after the other, in the order they are started. The exit
  codes are returned for the theorems to speak of; the source never reads them.
\<close>

fun run_jobs ::
  "'a Generator_scheme \<Rightarrow> bool \<Rightarrow> int \<Rightarrow> testcase list list \<Rightarrow> nat list \<Rightarrow> fs
     \<Rightarrow> (fs \<times> nat list) option" where
  "run_jobs g dryrun tpf chunks [] s = Some (s, [])"
| "run_jobs g dryrun tpf chunks (i # rest) s =
     (case print_single g (chunks ! i) i dryrun tpf s of
        None \<Rightarrow> None
      | Some (s', r) \<Rightarrow>
          (case run_jobs g dryrun tpf chunks rest s' of
             None \<Rightarrow> None
           | Some (s'', codes) \<Rightarrow> Some (s'', (if r = None then 0 else 1) # codes)))"

definition print ::
  "'a Generator_scheme \<Rightarrow> testcase list \<Rightarrow> bool \<Rightarrow> int \<Rightarrow> int \<Rightarrow> fs
     \<Rightarrow> (fs \<times> (error + nat list)) option" where
  "print g testcases dryrun workers testcases_per_file s =
     (case distribute workers testcases of
        Inl e \<Rightarrow> Some (s, Inl e)
      | Inr chunks \<Rightarrow>
          (case run_jobs g dryrun testcases_per_file chunks [0..<nat workers] s of
             None \<Rightarrow> None
           | Some (s', codes) \<Rightarrow> Some (s', Inr codes)))"

section \<open>The run\<close>

text \<open>
  The log messages of \<^verbatim>\<open>run\<close> evaluate \<^verbatim>\<open>int(self.testcases_length**(1/self.number_of_rounds))\<close>
  in their f-strings, whatever the log level: the division raises ZeroDivisionError for a
  round count of 0, and the power converts the forecast to a float. Floats are not modelled,
  only whether the conversion raises OverflowError: it does from \<^verbatim>\<open>2^1024 - 2^970\<close> on, the
  first integer that rounds to \<^verbatim>\<open>2^1024\<close>.
\<close>

definition float_overflow :: "int \<Rightarrow> bool" where
  "float_overflow x = (x \<ge> 2 ^ 1024 - 2 ^ 970)"

text \<open>
  \<^verbatim>\<open>TemporaryDirectory()\<close> creates the directory \<^verbatim>\<open>tmp\<close>, a name the system chooses; leaving
  the \<^verbatim>\<open>with\<close> block removes it with the files in it.
\<close>

definition mkdtemp :: "string \<Rightarrow> fs \<Rightarrow> fs" where
  "mkdtemp tmp s = s\<lparr>dirs := insert tmp (dirs s)\<rparr>"

definition cleanup :: "string \<Rightarrow> fs \<Rightarrow> fs" where
  "cleanup tmp s =
     s\<lparr>dirs := dirs s - {tmp},
       files := (\<lambda>path. if prefix (join tmp []) path then None else files s path)\<rparr>"

text \<open>
  \<^verbatim>\<open>Generator.run\<close>: the generator and the file system it leaves, and the exception it
  raises, if any; \<^verbatim>\<open>None\<close> when it never returns.
\<close>

definition run ::
  "Generator \<Rightarrow> fs \<Rightarrow> string \<Rightarrow> pyval \<Rightarrow> pyval \<Rightarrow> pyval
     \<Rightarrow> (Generator \<times> fs \<times> error option) option" where
  "run g s tmp dryrun workers testcases_per_file =
     (if \<not> (isinstance_bool dryrun \<and> isinstance_int workers \<and> isinstance_int testcases_per_file)
      then Some (g, s, Some TypeError)
      else if \<not> (int_of workers > 0 \<and> int_of testcases_per_file > 0)
      then Some (g, s, Some ValueError)
      else
        (case testcases_length g of
           Inl e \<Rightarrow> Some (g, s, Some e)
         | Inr forecast \<Rightarrow>
             (case make_partitions g of
                Inl e \<Rightarrow> Some (g, s, Some e)
              | Inr partitions \<Rightarrow>
                  if number_of_rounds g = 0 then Some (g, s, Some ZeroDivisionError)
                  else if float_overflow forecast then Some (g, s, Some OverflowError)
                  else
                    (case combine_scenarios_with_rounds g
                            (combine_partitions_with_leaders g partitions) of
                       Inl e \<Rightarrow> Some (g, s, Some e)
                     | Inr testcases \<Rightarrow>
                         (case distribute (number_of_machines g) testcases of
                            Inl e \<Rightarrow> Some (g, s, Some e)
                          | Inr shards \<Rightarrow>
                              (let s1 = (if bool_of dryrun then mkdtemp tmp s else s);
                                   g1 = (if bool_of dryrun then g\<lparr>folder_path := tmp\<rparr> else g);
                                   leave = (if bool_of dryrun then cleanup tmp else (\<lambda>x. x))
                               in case getitem shards (machine_index g - 1) of
                                    Inl e \<Rightarrow> Some (g1, leave s1, Some e)
                                  | Inr shard \<Rightarrow>
                                      (case print g1 shard (bool_of dryrun) (int_of workers)
                                              (int_of testcases_per_file) s1 of
                                         None \<Rightarrow> None
                                       | Some (s2, Inl e) \<Rightarrow> Some (g1, leave s2, Some e)
                                       | Some (s2, Inr codes) \<Rightarrow> Some (g1, leave s2, None))))))))"

section \<open>Notions used in the statements\<close>

text \<open>
  What one step of the second loop does to a partition: \<^verbatim>\<open>p[j] += [x]\<close>.
\<close>

definition ins :: "nat \<Rightarrow> nat \<Rightarrow> partition \<Rightarrow> partition" where
  "ins x j p = p[j := p ! j @ [x]]"

text \<open>
  A partition of \<open>{0..<n}\<close> into k blocks: k blocks, none empty, and every index in exactly
  one block, exactly once.
\<close>

definition is_partition :: "nat \<Rightarrow> nat \<Rightarrow> partition \<Rightarrow> bool" where
  "is_partition n k p \<longleftrightarrow>
     length p = k \<and> [] \<notin> set p \<and> distinct (concat p) \<and> set (concat p) = {0..<n}"

text \<open>
  A partition as a set of sets: the order of the blocks and of the indices is forgotten.
\<close>

definition as_sets :: "partition \<Rightarrow> nat set set" where
  "as_sets p = set (map set p)"

text \<open>
  Removing an index from every block of a set of sets, and the empty block with it.
\<close>

definition strip :: "nat \<Rightarrow> nat set set \<Rightarrow> nat set set" where
  "strip x P = (\<lambda>b. b - {x}) ` P - {{}}"

text \<open>
  A list of partitions enumerates the partitions of \<open>{0..<n}\<close> into k blocks: it has
  \<open>Stirling n k\<close> entries, each a partition, no two equal as sets of sets.
\<close>

definition enumerates :: "nat \<Rightarrow> nat \<Rightarrow> partition list \<Rightarrow> bool" where
  "enumerates n k ps \<longleftrightarrow>
     length ps = Stirling n k \<and> list_all (is_partition n k) ps \<and> distinct (map as_sets ps)"

text \<open>
  What the constructor establishes for the attributes of a generator. \<^verbatim>\<open>run\<close> changes only
  \<^verbatim>\<open>folder_path\<close>, which is not part of it.
\<close>

definition wf :: "Generator \<Rightarrow> bool" where
  "wf g \<longleftrightarrow>
     0 < number_of_nodes g \<and> 0 < number_of_partitions g \<and> 0 < number_of_rounds g
     \<and> 0 < machine_index g \<and> machine_index g \<le> number_of_machines g
     \<and> f g = (number_of_nodes g - 1) div 3
     \<and> nodes g = [0..<nat (number_of_nodes g + f g)]
     \<and> number_of_partitions g \<le> int (length (nodes g))"

text \<open>
  Three configurations for the witnesses: \<^verbatim>\<open>Generator(7, 1, 1, folder_path='out')\<close>,
  \<^verbatim>\<open>Generator(4, 2, 3)\<close> (the fixture of the repository's tests) and \<^verbatim>\<open>Generator(3, 2, 2)\<close>, as the
  constructor builds them.
\<close>

definition gen7 :: Generator where
  "gen7 = \<lparr> number_of_nodes = 7, number_of_partitions = 1, number_of_rounds = 1,
            folder_path = ''out'', machine_index = 1, number_of_machines = 1,
            filter' = (\<lambda>t. t \<noteq> []), f = 2, nodes = [0..<9] \<rparr>"

text \<open>
  \<^verbatim>\<open>Generator(4, 2, 3)\<close>.
\<close>

definition gen4 :: Generator where
  "gen4 = \<lparr> number_of_nodes = 4, number_of_partitions = 2, number_of_rounds = 3,
            folder_path = ''./'', machine_index = 1, number_of_machines = 1,
            filter' = (\<lambda>t. t \<noteq> []), f = 1, nodes = [0..<5] \<rparr>"

text \<open>
  \<^verbatim>\<open>Generator(3, 2, 2)\<close>.
\<close>

definition gen3 :: Generator where
  "gen3 = \<lparr> number_of_nodes = 3, number_of_partitions = 2, number_of_rounds = 2,
            folder_path = ''./'', machine_index = 1, number_of_machines = 1,
            filter' = (\<lambda>t. t \<noteq> []), f = 0, nodes = [0..<3] \<rparr>"

text \<open>
  A file system for the counterexample to C6: the output directory \<^verbatim>\<open>out\<close> exists, and the path
  of the first file of worker 0 is taken by a directory.
\<close>

definition bad_fs :: fs where
  "bad_fs = \<lparr>dirs = {''out'', ''out/testcase-1-0-0''}, files = Map.empty\<rparr>"

section \<open>The closed form computes the Stirling numbers\<close>

lemma alternating_sum_0: "alternating_sum 0 k = (if k = 0 then 1 else 0)"
proof -
  have "alternating_sum 0 k = (\<Sum>i\<le>k. (- 1) ^ i * int (k choose i))"
    by (simp add: alternating_sum_def)
  also have "\<dots> = (if k = 0 then 1 else 0)"
    using choose_alternating_sum[of k, where 'a=int] by (cases "k = 0") simp_all
  finally show ?thesis .
qed

lemma alternating_sum_Suc_0: "alternating_sum (Suc n) 0 = 0"
  by (simp add: alternating_sum_def)

lemma shifted_sum:
  "(\<Sum>i\<le>k. (- 1) ^ i * int (k choose i) * int (Suc k - i) ^ n)
     = alternating_sum n (Suc k) + alternating_sum n k"
proof -
  let ?R = "\<Sum>j\<le>k. (- 1) ^ j * int (k choose Suc j) * int (k - j) ^ n"
  have a: "alternating_sum n (Suc k)
      = int (Suc k) ^ n + (\<Sum>j\<le>k. (- 1) ^ Suc j * int (Suc k choose Suc j) * int (k - j) ^ n)"
    unfolding alternating_sum_def by (subst sum.atMost_Suc_shift) simp
  have b: "(\<Sum>j\<le>k. (- 1) ^ Suc j * int (Suc k choose Suc j) * int (k - j) ^ n)
      = - alternating_sum n k - ?R"
    unfolding alternating_sum_def
    by (simp add: algebra_simps sum.distrib sum_negf sum_subtractf)
  have c: "(\<Sum>i\<le>k. (- 1) ^ i * int (k choose i) * int (Suc k - i) ^ n) = int (Suc k) ^ n - ?R"
  proof (cases k)
    case 0
    then show ?thesis by simp
  next
    case (Suc m)
    have "(\<Sum>i\<le>Suc m. (- 1) ^ i * int (Suc m choose i) * int (Suc (Suc m) - i) ^ n)
       = int (Suc (Suc m)) ^ n
         + (\<Sum>j\<le>m. (- 1) ^ Suc j * int (Suc m choose Suc j) * int (Suc m - j) ^ n)"
      by (subst sum.atMost_Suc_shift) simp
    moreover have "(\<Sum>j\<le>Suc m. (- 1) ^ j * int (Suc m choose Suc j) * int (Suc m - j) ^ n)
       = (\<Sum>j\<le>m. (- 1) ^ j * int (Suc m choose Suc j) * int (Suc m - j) ^ n)"
      by (simp add: binomial_eq_0)
    ultimately show ?thesis unfolding Suc by (simp add: sum_negf)
  qed
  show ?thesis using a b c by simp
qed

lemma alternating_sum_step:
  "alternating_sum (Suc n) (Suc k) = int (Suc k) * (alternating_sum n (Suc k) + alternating_sum n k)"
proof -
  have "alternating_sum (Suc n) (Suc k)
      = (\<Sum>i\<le>k. (- 1) ^ i * int (Suc k choose i) * int (Suc k - i) ^ Suc n)"
    by (simp add: alternating_sum_def)
  also have "\<dots> = (\<Sum>i\<le>k. int (Suc k) * ((- 1) ^ i * int (k choose i) * int (Suc k - i) ^ n))"
  proof (rule sum.cong[OF refl])
    fix i assume "i \<in> {..k}"
    have "(Suc k - i) * (Suc k choose i) = Suc k * (k choose i)"
      using binomial_absorb_comp[of "Suc k" i] by simp
    then have "int (Suc k choose i) * int (Suc k - i) = int (Suc k) * int (k choose i)"
      by (metis mult.commute of_nat_mult)
    then have "(- 1) ^ i * (int (Suc k choose i) * int (Suc k - i)) * int (Suc k - i) ^ n
        = (- 1) ^ i * (int (Suc k) * int (k choose i)) * int (Suc k - i) ^ n"
      by (rule arg_cong)
    then show "(- 1) ^ i * int (Suc k choose i) * int (Suc k - i) ^ Suc n
        = int (Suc k) * ((- 1) ^ i * int (k choose i) * int (Suc k - i) ^ n)"
      by (simp add: mult_ac)
  qed
  also have "\<dots> = int (Suc k) * (alternating_sum n (Suc k) + alternating_sum n k)"
    by (simp only: sum_distrib_left[symmetric] shifted_sum)
  finally show ?thesis .
qed

lemma alternating_sum_Stirling: "alternating_sum n k = int (fact k * Stirling n k)"
proof (induction n k rule: Stirling.induct)
  case 1
  show ?case by (simp add: alternating_sum_0)
next
  case (2 k)
  show ?case by (simp add: alternating_sum_0)
next
  case (3 n)
  show ?case by (simp add: alternating_sum_Suc_0)
next
  case (4 n k)
  then show ?case by (simp add: alternating_sum_step algebra_simps)
qed

lemma fact_div_binomial:
  assumes "i \<le> k"
  shows "int (fact k) div int (fact i) div int (fact (k - i)) = int (k choose i)"
proof -
  have "fact i * fact (k - i) * (k choose i) = (fact k :: nat)"
    using assms by (rule binomial_fact_lemma)
  then have "(fact k :: nat) div (fact i * fact (k - i)) = k choose i"
    by (metis fact_nonzero mult_eq_0_iff nonzero_mult_div_cancel_left)
  then have "(fact k :: nat) div fact i div fact (k - i) = k choose i"
    by (simp add: div_mult2_eq)
  then show ?thesis
    by (metis of_nat_div)
qed

lemma S_term_binomial:
  assumes "i \<le> k"
  shows "S_term n k i = (- 1) ^ i * int (k choose i) * int (k - i) ^ n"
proof -
  have "int k - int i = int (k - i)"
    using assms by simp
  then show ?thesis
    unfolding S_term_def by (simp only: fact_div_binomial[OF assms])
qed

lemma sum_list_S_term: "sum_list (map (S_term n k) [0..<k + 1]) = alternating_sum n k"
proof -
  have "set [0..<k + 1] = {..k}"
    by auto
  then have "sum_list (map (S_term n k) [0..<k + 1]) = (\<Sum>i\<le>k. S_term n k i)"
    by (simp only: interv_sum_list_conv_sum_set_nat)
  also have "\<dots> = alternating_sum n k"
    unfolding alternating_sum_def by (rule sum.cong) (simp_all add: S_term_binomial)
  finally show ?thesis .
qed

lemma S_value:
  assumes "1 \<le> k" and "k \<le> n"
  shows "S n k = Inr (int (Stirling n k))"
proof -
  have "int (fact k * Stirling n k) div int (fact k) = int (Stirling n k)"
    by (simp del: of_nat_mult of_nat_fact add: zdiv_int[symmetric])
  then have "sum_list (map (S_term n k) [0..<k + 1]) div int (fact k) = int (Stirling n k)"
    by (simp only: sum_list_S_term alternating_sum_Stirling)
  moreover have "n > 0 \<and> k > 0 \<and> n \<ge> k"
    using assms by simp
  ultimately show ?thesis
    unfolding S_def by simp
qed

text \<open>
  C4. For \<open>n \<ge> k \<ge> 1\<close> the sum of the terms \<open>(-1)^i * C(k,i) * (k-i)^n\<close>, as \<^verbatim>\<open>S\<close>
  computes them, is exactly \<open>k!\<close> times the Stirling number of the second kind given by
  the standard recurrence, so the final floor division is exact and \<^verbatim>\<open>S(n, k)\<close> returns that
  Stirling number as an unbounded integer.
\<close>

theorem S_is_Stirling:
  "1 \<le> k \<Longrightarrow> k \<le> n \<Longrightarrow>
     sum_list (map (S_term n k) [0..<k + 1]) = int (fact k) * int (Stirling n k)
     \<and> S n k = Inr (int (Stirling n k))"
  by (simp only: S_value sum_list_S_term alternating_sum_Stirling of_nat_mult simp_thms)

theorem S_is_Stirling_witness:
  "sum_list (map (S_term 5 2) [0..<2 + 1]) = int (fact 2) * int (Stirling 5 2) \<and> S 5 2 = Inr 15"
proof -
  have "Stirling 5 2 = 15" by code_simp
  then show ?thesis using S_is_Stirling[of 2 5] by simp
qed

section \<open>The enumeration of the partitions\<close>

lemma fold_update_nth:
  "m \<le> length s \<Longrightarrow>
     length (fold (\<lambda>i s. s[i := g (s ! i)]) [0..<m] s) = length s
     \<and> (\<forall>i<length s. fold (\<lambda>i s. s[i := g (s ! i)]) [0..<m] s ! i = (if i < m then g (s ! i) else s ! i))"
proof (induction m)
  case 0
  then show ?case by simp
next
  case (Suc m)
  then show ?case by (auto simp: nth_list_update)
qed

lemma append_loop_map: "append_loop x s = map (\<lambda>p. p @ [[x]]) s"
  unfolding append_loop_def
  using fold_update_nth[of "length s" s "\<lambda>p. p @ [[x]]"]
  by (intro nth_equalityI) auto

lemma insert_loop_fold:
  assumes "\<forall>i<length ks. i div len < length (ks ! i)"
  shows "m \<le> length ks \<Longrightarrow>
     fold (insert_step x len) [0..<m] (Inr ks)
       = Inr (map (\<lambda>i. if i < m then ins x (i div len) (ks ! i) else ks ! i) [0..<length ks])"
proof (induction m)
  case 0
  show ?case by (simp add: map_nth)
next
  case (Suc m)
  let ?ks' = "map (\<lambda>i. if i < m then ins x (i div len) (ks ! i) else ks ! i) [0..<length ks]"
  have m: "m < length ks" using Suc.prems by simp
  have "fold (insert_step x len) [0..<Suc m] (Inr ks) = insert_step x len m (Inr ?ks')"
    using Suc by simp
  also have "\<dots> = Inr (?ks'[m := ins x (m div len) (ks ! m)])"
    using m assms by (simp add: insert_step_def ins_def Let_def)
  also have "?ks'[m := ins x (m div len) (ks ! m)]
     = map (\<lambda>i. if i < Suc m then ins x (i div len) (ks ! i) else ks ! i) [0..<length ks]"
    using m by (intro nth_equalityI) (auto simp: nth_list_update less_Suc_eq)
  finally show ?case .
qed

lemma length_concat_replicate: "length (concat (replicate k xs)) = length xs * k"
  by (induction k) simp_all

lemma nth_concat_replicate:
  "i < length xs * k \<Longrightarrow> concat (replicate k xs) ! i = xs ! (i mod length xs)"
proof (induction k arbitrary: i)
  case 0
  then show ?case by simp
next
  case (Suc k)
  show ?case
  proof (cases "i < length xs")
    case True
    then show ?thesis by (simp add: nth_append)
  next
    case False
    then have "i - length xs < length xs * k" using Suc.prems by simp
    then show ?thesis using False Suc.IH[of "i - length xs"]
      by (simp add: nth_append le_mod_geq)
  qed
qed

lemma insert_loop_map:
  assumes "\<forall>p\<in>set tmp. length p = k"
  shows "insert_loop x k tmp
    = Inr (map (\<lambda>i. ins x (i div length tmp) (tmp ! (i mod length tmp))) [0..<length tmp * k])"
proof -
  let ?ks = "concat (replicate k tmp)"
  have len: "length ?ks = length tmp * k" by (rule length_concat_replicate)
  have nth: "\<And>i. i < length tmp * k \<Longrightarrow> ?ks ! i = tmp ! (i mod length tmp)"
    by (rule nth_concat_replicate)
  have inr: "\<forall>i<length ?ks. i div length tmp < length (?ks ! i)"
  proof (intro allI impI)
    fix i assume i: "i < length ?ks"
    then have i': "i < length tmp * k" by (simp only: len)
    then have pos: "0 < length tmp" by (cases "length tmp") simp_all
    then have "tmp ! (i mod length tmp) \<in> set tmp" by simp
    then have "length (?ks ! i) = k" using assms nth[OF i'] by simp
    moreover have "i div length tmp < k"
      using i' by (simp add: less_mult_imp_div_less mult.commute)
    ultimately show "i div length tmp < length (?ks ! i)" by simp
  qed
  have "insert_loop x k tmp
      = Inr (map (\<lambda>i. if i < length ?ks then ins x (i div length tmp) (?ks ! i) else ?ks ! i) [0..<length ?ks])"
    unfolding insert_loop_def using insert_loop_fold[OF inr, of "length ?ks" x] by (simp only: len le_refl)
  also have "\<dots> = Inr (map (\<lambda>i. ins x (i div length tmp) (tmp ! (i mod length tmp))) [0..<length tmp * k])"
    by (simp add: len nth)
  finally show ?thesis .
qed

lemma Stirling_0_right: "Stirling n 0 = (if n = 0 then 1 else 0)"
  by (cases n) simp_all

lemma Stirling_less: "n < k \<Longrightarrow> Stirling n k = 0"
  by (induction n k rule: Stirling.induct) simp_all

lemma Stirling_self: "Stirling n n = 1"
  by (induction n) (simp_all add: Stirling_less)

lemma Stirling_one: "1 \<le> n \<Longrightarrow> Stirling n 1 = 1"
  by (induction n) (auto simp: Stirling_0_right)

lemma ins_decompose:
  assumes "j < length p"
  obtains A b C where "p = A @ b # C" and "ins x j p = A @ (b @ [x]) # C" and "length A = j"
proof
  show "p = take j p @ p ! j # drop (Suc j) p"
    using assms by (simp add: id_take_nth_drop)
  show "ins x j p = take j p @ (p ! j @ [x]) # drop (Suc j) p"
    using assms by (simp add: ins_def upd_conv_take_nth_drop)
  show "length (take j p) = j"
    using assms by simp
qed

lemma is_partition_append:
  "is_partition n k p \<Longrightarrow> is_partition (Suc n) (Suc k) (p @ [[n]])"
  by (auto simp: is_partition_def)

lemma is_partition_ins:
  assumes "is_partition n k p" and "j < k"
  shows "is_partition (Suc n) k (ins n j p)"
proof -
  have "j < length p" using assms by (simp add: is_partition_def)
  then obtain A b C where d: "p = A @ b # C" "ins n j p = A @ (b @ [n]) # C"
    by (rule ins_decompose)
  have "is_partition n k (A @ b # C)"
    using assms(1) d(1) by simp
  then have "is_partition (Suc n) k (A @ (b @ [n]) # C)"
    unfolding is_partition_def by (auto simp: less_Suc_eq)
  then show ?thesis
    using d(2) by simp
qed

lemma blocks_differ:
  assumes "[] \<notin> set p" and "distinct (concat p)"
    and "i < length p" and "j < length p" and "set (p ! i) = set (p ! j)"
  shows "i = j"
proof (rule ccontr)
  assume ne: "i \<noteq> j"
  have dp: "distinct p"
    using assms(1,2) by (simp add: distinct_concat_iff)
  then have "p ! i \<noteq> p ! j"
    using ne assms(3,4) by (simp add: nth_eq_iff_index_eq)
  then have "set (p ! i) \<inter> set (p ! j) = {}"
    using assms(2,3,4) by (simp add: distinct_concat_iff)
  moreover have "set (p ! i) \<noteq> {}"
    using assms(1,3) by (metis nth_mem set_empty)
  ultimately show False using assms(5) by simp
qed

lemma strip_clean: "\<forall>b\<in>P. x \<notin> b \<and> b \<noteq> {} \<Longrightarrow> strip x P = P"
  unfolding strip_def by force

lemma strip_insert:
  "x \<notin> c \<Longrightarrow> strip x (insert (insert x c) P) = (if c = {} then strip x P else insert c (strip x P))"
  unfolding strip_def by auto

lemma as_sets_append: "as_sets (p @ q) = as_sets p \<union> as_sets q"
  by (simp add: as_sets_def)

lemma as_sets_Cons: "as_sets (b # q) = insert (set b) (as_sets q)"
  by (simp add: as_sets_def)

lemma as_sets_Nil: "as_sets [] = {}"
  by (simp add: as_sets_def)

lemma as_sets_clean:
  assumes "is_partition n k p"
  shows "\<forall>b\<in>as_sets p. n \<notin> b \<and> b \<noteq> {}"
proof
  fix b assume "b \<in> as_sets p"
  then obtain l where l: "l \<in> set p" "b = set l"
    by (auto simp: as_sets_def)
  have "set l \<subseteq> {0..<n}"
    using assms l(1) by (auto simp: is_partition_def)
  moreover have "l \<noteq> []"
    using assms l(1) by (auto simp: is_partition_def)
  ultimately show "n \<notin> b \<and> b \<noteq> {}"
    using l(2) by auto
qed

lemma strip_append:
  assumes "is_partition n k p"
  shows "strip n (as_sets (p @ [[n]])) = as_sets p"
proof -
  have "as_sets (p @ [[n]]) = insert (insert n {}) (as_sets p)"
    by (simp add: as_sets_append as_sets_Cons as_sets_Nil)
  then show ?thesis
    using strip_insert[of n "{}" "as_sets p"] strip_clean[OF as_sets_clean[OF assms]] by simp
qed

lemma as_sets_ins:
  assumes "is_partition n k p" and "j < k"
  shows "as_sets p = insert (set (p ! j)) (as_sets p)"
    and "\<exists>Q. Q \<subseteq> as_sets p \<and> as_sets (ins n j p) = insert (insert n (set (p ! j))) Q
            \<and> as_sets p = insert (set (p ! j)) Q"
proof -
  have j: "j < length p" using assms by (simp add: is_partition_def)
  then show "as_sets p = insert (set (p ! j)) (as_sets p)"
    by (auto simp: as_sets_def)
  obtain A b C where d: "p = A @ b # C" "ins n j p = A @ (b @ [n]) # C" "length A = j"
    using j by (rule ins_decompose)
  have b: "p ! j = b" using d(1,3) by (auto simp: nth_append)
  let ?Q = "as_sets A \<union> as_sets C"
  have "?Q \<subseteq> as_sets p"
    by (auto simp: d(1) as_sets_append as_sets_Cons)
  moreover have "as_sets (ins n j p) = insert (insert n (set (p ! j))) ?Q"
    by (simp add: d(2) b as_sets_append as_sets_Cons)
  moreover have "as_sets p = insert (set (p ! j)) ?Q"
    using b by (simp add: d(1) as_sets_append as_sets_Cons)
  ultimately show "\<exists>Q. Q \<subseteq> as_sets p \<and> as_sets (ins n j p) = insert (insert n (set (p ! j))) Q
            \<and> as_sets p = insert (set (p ! j)) Q"
    by blast
qed

lemma strip_ins:
  assumes "is_partition n k p" and "j < k"
  shows "strip n (as_sets (ins n j p)) = as_sets p"
proof -
  obtain Q where Q: "Q \<subseteq> as_sets p"
      "as_sets (ins n j p) = insert (insert n (set (p ! j))) Q"
      "as_sets p = insert (set (p ! j)) Q"
    using as_sets_ins(2)[OF assms] by blast
  have clean: "\<forall>b\<in>as_sets p. n \<notin> b \<and> b \<noteq> {}"
    by (rule as_sets_clean[OF assms(1)])
  have pj: "n \<notin> set (p ! j)" "set (p ! j) \<noteq> {}"
    using clean Q(3) by auto
  have "strip n Q = Q"
    using clean Q(1) by (intro strip_clean) blast
  then show ?thesis
    using strip_insert[OF pj(1), of Q] pj(2) Q(2,3) by simp
qed

lemma singleton_not_ins:
  assumes "is_partition n k p" and "j < k"
  shows "{n} \<notin> as_sets (ins n j p)"
proof -
  obtain Q where Q: "Q \<subseteq> as_sets p"
      "as_sets (ins n j p) = insert (insert n (set (p ! j))) Q"
      "as_sets p = insert (set (p ! j)) Q"
    using as_sets_ins(2)[OF assms] by blast
  have clean: "\<forall>b\<in>as_sets p. n \<notin> b \<and> b \<noteq> {}"
    by (rule as_sets_clean[OF assms(1)])
  have pj: "n \<notin> set (p ! j)" "set (p ! j) \<noteq> {}"
    using clean Q(3) by auto
  have "{n} \<noteq> insert n (set (p ! j))"
  proof
    assume "{n} = insert n (set (p ! j))"
    then have "set (p ! j) \<subseteq> {n}" by blast
    then have "set (p ! j) = {} \<or> set (p ! j) = {n}" by (rule subset_singletonD)
    then show False using pj by (elim disjE) simp_all
  qed
  moreover have "{n} \<notin> Q"
    using clean Q(1) by auto
  ultimately show ?thesis
    using Q(2) by simp
qed

lemma ins_block:
  assumes "is_partition n k p" and "j < k"
  shows "{b \<in> as_sets (ins n j p). n \<in> b} = {insert n (set (p ! j))}"
proof -
  obtain Q where Q: "Q \<subseteq> as_sets p"
      "as_sets (ins n j p) = insert (insert n (set (p ! j))) Q"
    using as_sets_ins(2)[OF assms] by blast
  have "\<forall>b\<in>Q. n \<notin> b"
    using as_sets_clean[OF assms(1)] Q(1) by auto
  then show ?thesis
    unfolding Q(2) by auto
qed

lemma ins_inj:
  assumes "is_partition n k p" and "j < k" and "j' < k"
    and "as_sets (ins n j p) = as_sets (ins n j' p)"
  shows "j = j'"
proof -
  have "{insert n (set (p ! j))} = {insert n (set (p ! j'))}"
    using ins_block[OF assms(1,2)] ins_block[OF assms(1,3)] assms(4) by simp
  then have eq: "insert n (set (p ! j)) = insert n (set (p ! j'))"
    by simp
  have len: "length p = k" using assms(1) by (simp add: is_partition_def)
  have "set (p ! j) \<in> as_sets p" "set (p ! j') \<in> as_sets p"
    using assms(2,3) len by (auto simp: as_sets_def)
  then have "n \<notin> set (p ! j)" "n \<notin> set (p ! j')"
    using as_sets_clean[OF assms(1)] by auto
  then have "set (p ! j) = set (p ! j')"
    using eq by (metis insert_ident)
  then show ?thesis
    using blocks_differ[of p j j'] assms(1,2,3) len by (simp add: is_partition_def)
qed

lemma stirling2_step:
  assumes "1 < k" and "k < Suc n"
    and "stirling2 n (k - 1) = Inr s" and "stirling2 n k = Inr tmp"
    and "\<forall>p\<in>set tmp. length p = k"
  shows "stirling2 (Suc n) k
    = Inr (map (\<lambda>p. p @ [[n]]) s
         @ map (\<lambda>i. ins n (i div length tmp) (tmp ! (i mod length tmp))) [0..<length tmp * k])"
  using assms
  by (subst stirling2.simps) (simp add: append_loop_map insert_loop_map)

lemma enumerates_base_one:
  assumes "1 \<le> n"
  shows "enumerates n 1 [[[0..<n]]]"
proof -
  have "[] \<noteq> [0..<n]"
    using assms by (cases n) (simp_all add: upt_conv_Cons del: upt_Suc)
  then show ?thesis
    using Stirling_one[OF assms] by (simp add: enumerates_def is_partition_def)
qed

lemma enumerates_base_self: "enumerates n n [map (\<lambda>x. [x]) [0..<n]]"
proof -
  have "concat (map (\<lambda>x. [x]) [0..<n]) = [0..<n]"
    by (induction n) simp_all
  then show ?thesis
    by (auto simp: enumerates_def Stirling_self is_partition_def)
qed

lemma enumerates_new_block:
  assumes "enumerates n k s"
  shows "list_all (is_partition (Suc n) (Suc k)) (map (\<lambda>p. p @ [[n]]) s)"
    and "distinct (map as_sets (map (\<lambda>p. p @ [[n]]) s))"
proof -
  have parts: "\<forall>p\<in>set s. is_partition n k p"
    using assms by (simp add: enumerates_def list_all_iff)
  then show "list_all (is_partition (Suc n) (Suc k)) (map (\<lambda>p. p @ [[n]]) s)"
    by (simp add: list_all_iff is_partition_append)
  have d: "distinct s" and inj: "inj_on as_sets (set s)"
    using assms by (simp_all add: enumerates_def distinct_map)
  have "inj_on (\<lambda>p. as_sets (p @ [[n]])) (set s)"
  proof (rule inj_onI)
    fix p q assume pq: "p \<in> set s" "q \<in> set s" "as_sets (p @ [[n]]) = as_sets (q @ [[n]])"
    have "as_sets p = strip n (as_sets (p @ [[n]]))"
      using parts pq(1) strip_append[of n k p] by simp
    also have "\<dots> = as_sets q"
      using parts pq(2,3) strip_append[of n k q] by simp
    finally show "p = q"
      using inj pq(1,2) by (simp add: inj_on_def)
  qed
  then show "distinct (map as_sets (map (\<lambda>p. p @ [[n]]) s))"
    using d by (simp add: distinct_map comp_def)
qed

lemma enumerates_old_block:
  assumes "enumerates n k tmp"
  defines "h \<equiv> \<lambda>i. ins n (i div length tmp) (tmp ! (i mod length tmp))"
  shows "list_all (is_partition (Suc n) k) (map h [0..<length tmp * k])"
    and "distinct (map as_sets (map h [0..<length tmp * k]))"
proof -
  have parts: "\<forall>p\<in>set tmp. is_partition n k p"
    using assms(1) by (simp add: enumerates_def list_all_iff)
  have d: "distinct (map as_sets tmp)"
    using assms(1) by (simp add: enumerates_def)
  have idx: "i mod length tmp < length tmp \<and> i div length tmp < k
       \<and> is_partition n k (tmp ! (i mod length tmp))" if "i < length tmp * k" for i
  proof -
    have pos: "0 < length tmp" using that by (cases "length tmp") simp_all
    then have "i mod length tmp < length tmp" by simp
    moreover have "i div length tmp < k"
      using that by (simp add: less_mult_imp_div_less mult.commute)
    ultimately show ?thesis using parts by simp
  qed
  show "list_all (is_partition (Suc n) k) (map h [0..<length tmp * k])"
    using idx by (simp add: list_all_iff h_def is_partition_ins)
  have "inj_on (\<lambda>i. as_sets (h i)) {0..<length tmp * k}"
  proof (rule inj_onI)
    fix i i' assume a: "i \<in> {0..<length tmp * k}" "i' \<in> {0..<length tmp * k}"
      "as_sets (h i) = as_sets (h i')"
    have i: "i < length tmp * k" and i': "i' < length tmp * k" using a by simp_all
    have "as_sets (tmp ! (i mod length tmp)) = strip n (as_sets (h i))"
      using idx[OF i] strip_ins[of n k "tmp ! (i mod length tmp)" "i div length tmp"]
      by (simp add: h_def)
    also have "\<dots> = as_sets (tmp ! (i' mod length tmp))"
      using idx[OF i'] a(3) strip_ins[of n k "tmp ! (i' mod length tmp)" "i' div length tmp"]
      by (simp add: h_def)
    finally have "map as_sets tmp ! (i mod length tmp) = map as_sets tmp ! (i' mod length tmp)"
      using idx[OF i] idx[OF i'] by simp
    moreover have "i mod length tmp < length (map as_sets tmp)"
      and "i' mod length tmp < length (map as_sets tmp)"
      using idx[OF i] idx[OF i'] by simp_all
    ultimately have m: "i mod length tmp = i' mod length tmp"
      using d by (simp only: nth_eq_iff_index_eq)
    have "i div length tmp = i' div length tmp"
      using ins_inj[of n k "tmp ! (i mod length tmp)" "i div length tmp" "i' div length tmp"]
        idx[OF i] idx[OF i'] a(3) m by (simp add: h_def)
    then show "i = i'"
      using m by (metis div_mult_mod_eq)
  qed
  then show "distinct (map as_sets (map h [0..<length tmp * k]))"
    by (simp add: distinct_map comp_def)
qed

lemma enumerates_step:
  assumes "enumerates n k s" and "enumerates n (Suc k) tmp"
  shows "enumerates (Suc n) (Suc k)
     (map (\<lambda>p. p @ [[n]]) s
       @ map (\<lambda>i. ins n (i div length tmp) (tmp ! (i mod length tmp))) [0..<length tmp * Suc k])"
proof -
  let ?A = "map (\<lambda>p. p @ [[n]]) s"
  let ?h = "\<lambda>i. ins n (i div length tmp) (tmp ! (i mod length tmp))"
  let ?B = "map ?h [0..<length tmp * Suc k]"
  have len: "length (?A @ ?B) = Stirling (Suc n) (Suc k)"
    using assms by (simp add: enumerates_def)
  have parts: "list_all (is_partition (Suc n) (Suc k)) (?A @ ?B)"
    using enumerates_new_block(1)[OF assms(1)] enumerates_old_block(1)[OF assms(2)] by simp
  have tmp_parts: "\<forall>p\<in>set tmp. is_partition n (Suc k) p"
    using assms(2) by (simp add: enumerates_def list_all_iff)
  have "as_sets ` set ?A \<inter> as_sets ` set ?B = {}"
  proof (rule ccontr)
    assume "as_sets ` set ?A \<inter> as_sets ` set ?B \<noteq> {}"
    then obtain p i where pi: "p \<in> set s" "i < length tmp * Suc k"
        "as_sets (p @ [[n]]) = as_sets (?h i)"
      by auto
    have pos: "0 < length tmp" using pi(2) by (cases "length tmp") simp_all
    then have "is_partition n (Suc k) (tmp ! (i mod length tmp))"
      using tmp_parts by simp
    moreover have "i div length tmp < Suc k"
      using pi(2) by (simp add: less_mult_imp_div_less mult.commute del: mult_Suc_right)
    ultimately have "{n} \<notin> as_sets (?h i)"
      by (rule singleton_not_ins)
    moreover have "{n} \<in> as_sets (p @ [[n]])"
      by (simp add: as_sets_append as_sets_Cons)
    ultimately show False using pi(3) by simp
  qed
  then have "distinct (map as_sets (?A @ ?B))"
    using enumerates_new_block(2)[OF assms(1)] enumerates_old_block(2)[OF assms(2)]
    by (simp del: map_map upt_Suc mult_Suc_right)
  then show ?thesis
    using len parts unfolding enumerates_def by blast
qed

lemma stirling2_enumerates:
  "1 \<le> k \<Longrightarrow> k \<le> n \<Longrightarrow> \<exists>ps. stirling2 n k = Inr ps \<and> enumerates n k ps"
proof (induction n arbitrary: k)
  case 0
  then show ?case by simp
next
  case (Suc n)
  show ?case
  proof (cases "k = 1")
    case True
    then show ?thesis
      using enumerates_base_one[of "Suc n"] by (subst stirling2.simps) simp
  next
    case k1: False
    show ?thesis
    proof (cases "k = Suc n")
      case True
      then show ?thesis
        using k1 enumerates_base_self[of "Suc n"] by (subst stirling2.simps) (simp del: upt_Suc)
    next
      case False
      then obtain k' where k: "k = Suc k'" "1 \<le> k'" "k' \<le> n" "Suc k' \<le> n"
        using k1 Suc.prems by (cases k) auto
      obtain s where s: "stirling2 n k' = Inr s" "enumerates n k' s"
        using Suc.IH[OF k(2,3)] by blast
      obtain tmp where tmp: "stirling2 n (Suc k') = Inr tmp" "enumerates n (Suc k') tmp"
        using Suc.IH[of "Suc k'"] k(4) by auto
      have "\<forall>p\<in>set tmp. length p = Suc k'"
        using tmp(2) by (simp add: enumerates_def list_all_iff is_partition_def)
      then have "stirling2 (Suc n) (Suc k')
        = Inr (map (\<lambda>p. p @ [[n]]) s
         @ map (\<lambda>i. ins n (i div length tmp) (tmp ! (i mod length tmp))) [0..<length tmp * Suc k'])"
        using stirling2_step[of "Suc k'" n s tmp] k s(1) tmp(1) by simp
      then show ?thesis
        using enumerates_step[OF s(2) tmp(2)] k(1) by simp
    qed
  qed
qed

text \<open>
  C1. For \<open>n \<ge> k \<ge> 1\<close> the enumeration \<^verbatim>\<open>stirling2(n, k)\<close> of \<^verbatim>\<open>make_partitions\<close> returns
  (it raises nothing), and the list it returns has exactly as many partitions as \<^verbatim>\<open>S(n, k)\<close>
  computes, which is the Stirling number of the second kind; no two of them are equal as
  sets of sets; for \<open>k = 1\<close> it is the single partition with one block of all indices and for
  \<open>k = n\<close> the partition into singletons; every partition has exactly k blocks, none empty,
  pairwise disjoint, whose union is \<open>{0..<n}\<close>.
\<close>

theorem stirling2_partitions:
  assumes "1 \<le> k" and "k \<le> n"
  shows "\<exists>ps. stirling2 n k = Inr ps
     \<and> S n k = Inr (int (length ps))
     \<and> length ps = Stirling n k
     \<and> distinct (map (\<lambda>p. set (map set p)) ps)
     \<and> (k = 1 \<longrightarrow> ps = [[[0..<n]]])
     \<and> (k = n \<longrightarrow> ps = [map (\<lambda>x. [x]) [0..<n]])
     \<and> (\<forall>p\<in>set ps. length p = k \<and> [] \<notin> set p
            \<and> (\<forall>i<k. \<forall>j<k. i \<noteq> j \<longrightarrow> set (p ! i) \<inter> set (p ! j) = {})
            \<and> \<Union> (set ` set p) = {0..<n})"
proof -
  obtain ps where ps: "stirling2 n k = Inr ps" "enumerates n k ps"
    using stirling2_enumerates[OF assms] by blast
  have len: "length ps = Stirling n k"
    using ps(2) by (simp add: enumerates_def)
  have count: "S n k = Inr (int (length ps))"
    using S_value[OF assms] len by simp
  have "as_sets = (\<lambda>p. set (map set p))"
    by (rule ext) (simp only: as_sets_def)
  then have dist: "distinct (map (\<lambda>p. set (map set p)) ps)"
    using ps(2) by (simp only: enumerates_def)
  have one: "k = 1 \<longrightarrow> ps = [[[0..<n]]]"
    using ps(1) assms by (subst (asm) stirling2.simps) auto
  have self: "k = n \<longrightarrow> ps = [map (\<lambda>x. [x]) [0..<n]]"
  proof
    assume kn: "k = n"
    show "ps = [map (\<lambda>x. [x]) [0..<n]]"
    proof (cases "k = 1")
      case True
      then have "n = 1" using kn by simp
      then show ?thesis using one True by simp
    next
      case False
      then show ?thesis
        using ps(1) assms kn by (subst (asm) stirling2.simps) (simp del: upt_Suc)
    qed
  qed
  have parts: "\<forall>p\<in>set ps. length p = k \<and> [] \<notin> set p
            \<and> (\<forall>i<k. \<forall>j<k. i \<noteq> j \<longrightarrow> set (p ! i) \<inter> set (p ! j) = {})
            \<and> \<Union> (set ` set p) = {0..<n}"
  proof
    fix p assume "p \<in> set ps"
    then have p: "length p = k" "[] \<notin> set p" "distinct (concat p)" "set (concat p) = {0..<n}"
      using ps(2) by (simp_all add: enumerates_def list_all_iff is_partition_def)
    have dp: "distinct p"
      using p(2,3) by (simp add: distinct_concat_iff)
    have "set (p ! i) \<inter> set (p ! j) = {}" if "i < k" "j < k" "i \<noteq> j" for i j
    proof -
      have "p ! i \<noteq> p ! j"
        using dp that p(1) by (simp add: nth_eq_iff_index_eq)
      then show ?thesis
        using p(1,3) that by (simp add: distinct_concat_iff)
    qed
    moreover have "\<Union> (set ` set p) = {0..<n}"
      using p(4) by simp
    ultimately show "length p = k \<and> [] \<notin> set p
            \<and> (\<forall>i<k. \<forall>j<k. i \<noteq> j \<longrightarrow> set (p ! i) \<inter> set (p ! j) = {})
            \<and> \<Union> (set ` set p) = {0..<n}"
      using p(1,2) by simp
  qed
  show ?thesis
    by (intro exI[of _ ps] conjI ps(1) count len dist one self parts)
qed

theorem stirling2_partitions_witness:
  "stirling2 3 2 = Inr [[[0, 1], [2]], [[0, 2], [1]], [[0], [1, 2]]]
   \<and> S 3 2 = Inr 3 \<and> Stirling 3 2 = 3"
proof -
  have e: "stirling2 3 2 = Inr [[[0, 1], [2]], [[0, 2], [1]], [[0], [1, 2]]]"
    by code_simp
  obtain ps where ps: "stirling2 3 2 = Inr ps" "S 3 2 = Inr (int (length ps))"
      "length ps = Stirling 3 2"
    using stirling2_partitions[of 2 3] by auto
  have "ps = [[[0, 1], [2]], [[0, 2], [1]], [[0], [1, 2]]]"
    using ps(1) e by simp
  then show ?thesis
    using e ps(2,3) by simp
qed

section \<open>Sharding\<close>

lemma islice_from_append:
  "islice_from pos start step (xs @ [x])
     = islice_from pos start step xs
       @ (if start \<le> pos + length xs \<and> (pos + length xs - start) mod step = 0 then [x] else [])"
  by (induction xs arbitrary: pos) simp_all

lemma position_selected:
  fixes r M i :: nat
  assumes "r < M"
  shows "(r \<le> i \<and> (i - r) mod M = 0) \<longleftrightarrow> i mod M = r"
proof
  assume a: "r \<le> i \<and> (i - r) mod M = 0"
  then have "i = (i - r) + r" by simp
  then have "i mod M = ((i - r) mod M + r) mod M"
    by (metis mod_add_left_eq)
  then show "i mod M = r" using a assms by simp
next
  assume b: "i mod M = r"
  then have ri: "r \<le> i" by (metis mod_less_eq_dividend)
  have "i - r = (i div M) * M"
    using b by (metis add_diff_cancel_right' div_mult_mod_eq)
  then show "r \<le> i \<and> (i - r) mod M = 0" using ri by simp
qed

lemma islice_snoc:
  assumes "r < M"
  shows "islice (xs @ [x]) r M = islice xs r M @ (if length xs mod M = r then [x] else [])"
  unfolding islice_def islice_from_append
  using position_selected[OF assms, of "length xs"] by simp

lemma shard_length_step:
  assumes "r < M"
  shows "Suc L div M + (if r < Suc L mod M then 1 else 0)
       = L div M + (if r < L mod M then 1 else 0) + (if L mod M = r then 1 else (0::nat))"
  using assms by (auto simp: div_Suc mod_Suc)

lemma islice_shape:
  assumes "r < M"
  shows "length (islice xs r M) = length xs div M + (if r < length xs mod M then 1 else 0)
     \<and> (\<forall>q<length (islice xs r M). q * M + r < length xs \<and> islice xs r M ! q = xs ! (q * M + r))"
proof (induction xs rule: rev_induct)
  case Nil
  then show ?case by (simp add: islice_def)
next
  case (snoc x xs)
  let ?L = "length xs"
  let ?s = "islice xs r M"
  have len: "length ?s = ?L div M + (if r < ?L mod M then 1 else 0)"
    and nth: "\<And>q. q < length ?s \<Longrightarrow> q * M + r < ?L \<and> ?s ! q = xs ! (q * M + r)"
    using snoc.IH by simp_all
  have len': "length (islice (xs @ [x]) r M)
      = length (xs @ [x]) div M + (if r < length (xs @ [x]) mod M then 1 else 0)"
    using shard_length_step[OF assms, of ?L] len by (simp add: islice_snoc[OF assms])
  have nth': "q * M + r < length (xs @ [x])
      \<and> islice (xs @ [x]) r M ! q = (xs @ [x]) ! (q * M + r)"
    if q: "q < length (islice (xs @ [x]) r M)" for q
  proof (cases "q < length ?s")
    case True
    then show ?thesis
      using nth[OF True] by (simp add: islice_snoc[OF assms] nth_append)
  next
    case False
    then have sel: "?L mod M = r" and qe: "q = length ?s"
      using q by (auto simp: islice_snoc[OF assms] split: if_splits)
    have "q = ?L div M"
      using qe len sel by simp
    then have "q * M + r = ?L"
      using sel by (metis div_mult_mod_eq)
    then show ?thesis
      using sel qe by (simp add: islice_snoc[OF assms] nth_append)
  qed
  show ?case using len' nth' by blast
qed

lemma islice_position:
  assumes "r < M" and "q < length (islice xs r M)"
  shows "q * M + r < length xs" and "islice xs r M ! q = xs ! (q * M + r)"
  using islice_shape[OF assms(1), of xs] assms(2) by simp_all

lemma islice_element:
  assumes "0 < M" and "i < length xs"
  shows "i div M < length (islice xs (i mod M) M)"
    and "islice xs (i mod M) M ! (i div M) = xs ! i"
proof -
  have r: "i mod M < M" using assms(1) by simp
  have len: "length (islice xs (i mod M) M)
      = length xs div M + (if i mod M < length xs mod M then 1 else 0)"
    using islice_shape[OF r, of xs] by simp
  have le: "i div M \<le> length xs div M"
    using assms(2) by (simp add: div_le_mono)
  show lt: "i div M < length (islice xs (i mod M) M)"
  proof (cases "i div M = length xs div M")
    case True
    have "i div M * M + i mod M < length xs div M * M + length xs mod M"
      using assms(2) by (simp only: div_mult_mod_eq)
    then have "length xs div M * M + i mod M < length xs div M * M + length xs mod M"
      by (simp only: True)
    then have "i mod M < length xs mod M"
      by (simp only: add_less_cancel_left)
    then show ?thesis using len True by simp
  next
    case False
    then show ?thesis using le len by simp
  qed
  show "islice xs (i mod M) M ! (i div M) = xs ! i"
    using islice_position(2)[OF r lt] by (simp only: div_mult_mod_eq)
qed

lemma sum_list_one_extra:
  fixes g :: "nat \<Rightarrow> 'b multiset"
  assumes "c < M"
  shows "(\<Sum>r\<leftarrow>[0..<M]. g r + (if c = r then a else {#})) = (\<Sum>r\<leftarrow>[0..<M]. g r) + a"
proof -
  have "(\<Sum>r\<leftarrow>[0..<M]. (if c = r then a else {#})) = (\<Sum>r\<in>{0..<M}. (if c = r then a else {#}))"
    by (simp add: interv_sum_list_conv_sum_set_nat)
  also have "\<dots> = a"
    using assms by simp
  finally show ?thesis
    by (simp add: sum_list_addf)
qed

lemma mset_shards:
  assumes "0 < M"
  shows "mset (concat (map (\<lambda>r. islice xs r M) [0..<M])) = mset xs"
proof (induction xs rule: rev_induct)
  case Nil
  show ?case by (simp add: islice_def)
next
  case (snoc x xs)
  have c: "length xs mod M < M" using assms by simp
  have eq: "map (\<lambda>r. mset (islice (xs @ [x]) r M)) [0..<M]
      = map (\<lambda>r. mset (islice xs r M) + (if length xs mod M = r then {#x#} else {#})) [0..<M]"
    by (rule map_cong) (simp_all add: islice_snoc)
  have "mset (concat (map (\<lambda>r. islice (xs @ [x]) r M) [0..<M]))
      = (\<Sum>r\<leftarrow>[0..<M]. mset (islice (xs @ [x]) r M))"
    by (simp add: mset_concat comp_def)
  also have "\<dots>
      = (\<Sum>r\<leftarrow>[0..<M]. mset (islice xs r M) + (if length xs mod M = r then {#x#} else {#}))"
    by (simp only: eq)
  also have "\<dots> = (\<Sum>r\<leftarrow>[0..<M]. mset (islice xs r M)) + {#x#}"
    by (rule sum_list_one_extra[OF c])
  also have "\<dots> = mset (xs @ [x])"
    using snoc.IH by (simp add: mset_concat comp_def)
  finally show ?case .
qed

lemma ceiling_div:
  fixes L M :: nat
  assumes "0 < M"
  shows "(L + M - 1) div M = L div M + (if L mod M = 0 then 0 else 1)"
proof -
  obtain q m where L: "L = q * M + m" and m: "m < M" "q = L div M" "m = L mod M"
    using assms by (metis div_mult_mod_eq mod_less_divisor)
  show ?thesis
  proof (cases "m = 0")
    case True
    obtain d where d: "M = Suc d"
      using assms by (cases M) auto
    have "(q * M + d) div M = q + d div M"
      by (rule div_mult_self3) (use assms in simp)
    then have "(q * M + d) div M = q"
      using d by simp
    moreover have "L + M - 1 = q * M + d"
      using L True d by simp
    ultimately show ?thesis using True m by simp
  next
    case False
    have "L + M - 1 = (q + 1) * M + (m - 1)"
      using L False by (simp add: algebra_simps)
    moreover have "((q + 1) * M + (m - 1)) div M = (q + 1) + (m - 1) div M"
      by (rule div_mult_self3) (use assms in simp)
    moreover have "(m - 1) div M = 0"
      using m(1) by simp
    ultimately show ?thesis using False m by simp
  qed
qed

text \<open>
  C2. For a finite sequence of length L and a shard count \<open>M \<ge> 1\<close>, \<^verbatim>\<open>distribute\<close> (the sharding
  of \<^verbatim>\<open>run\<close> over the machines and of \<^verbatim>\<open>print\<close> over the workers) returns M shards and raises
  nothing; element i of the input is element \<open>i div M\<close> of shard \<open>i mod M\<close>, and every position
  of a shard holds the input element of one index, so the shards share no position; the
  shards together hold the elements of the input with their multiplicities, L in all; every
  shard has \<open>floor(L/M)\<close> or \<open>ceil(L/M)\<close> elements; a shard whose number is L or more is empty.
\<close>

theorem distribute_round_robin:
  assumes "1 \<le> M"
  shows "\<exists>shards. distribute (int M) xs = Inr shards \<and> length shards = M
     \<and> (\<forall>i<length xs. i div M < length (shards ! (i mod M))
            \<and> shards ! (i mod M) ! (i div M) = xs ! i)
     \<and> (\<forall>r<M. \<forall>q<length (shards ! r). q * M + r < length xs
            \<and> shards ! r ! q = xs ! (q * M + r))
     \<and> mset (concat shards) = mset xs
     \<and> sum_list (map length shards) = length xs
     \<and> (\<forall>r<M. length (shards ! r) = length xs div M
            \<or> length (shards ! r) = (length xs + M - 1) div M)
     \<and> (\<forall>r<M. length xs \<le> r \<longrightarrow> shards ! r = [])"
proof -
  let ?shards = "map (\<lambda>r. islice xs r M) [0..<M]"
  have M: "0 < M" using assms by simp
  have d: "distribute (int M) xs = Inr ?shards"
    using assms by (simp add: distribute_def)
  have len: "length ?shards = M" by simp
  have nth: "\<And>r. r < M \<Longrightarrow> ?shards ! r = islice xs r M" by simp
  have elem: "\<forall>i<length xs. i div M < length (?shards ! (i mod M))
            \<and> ?shards ! (i mod M) ! (i div M) = xs ! i"
  proof (intro allI impI)
    fix i assume i: "i < length xs"
    have "?shards ! (i mod M) = islice xs (i mod M) M" using M by (intro nth) simp
    then show "i div M < length (?shards ! (i mod M))
            \<and> ?shards ! (i mod M) ! (i div M) = xs ! i"
      using islice_element[OF M i] by (simp only: simp_thms)
  qed
  have pos: "\<forall>r<M. \<forall>q<length (?shards ! r). q * M + r < length xs
            \<and> ?shards ! r ! q = xs ! (q * M + r)"
  proof (intro allI impI)
    fix r q assume r: "r < M" and q: "q < length (?shards ! r)"
    have q': "q < length (islice xs r M)" using q by (simp only: nth[OF r])
    show "q * M + r < length xs \<and> ?shards ! r ! q = xs ! (q * M + r)"
      using islice_position[OF r q'] by (simp only: nth[OF r] simp_thms)
  qed
  have ms: "mset (concat ?shards) = mset xs"
    by (rule mset_shards[OF M])
  have "size (mset (concat ?shards)) = size (mset xs)"
    by (simp only: ms)
  then have total: "sum_list (map length ?shards) = length xs"
    by (simp only: size_mset length_concat)
  have sizes: "\<forall>r<M. length (?shards ! r) = length xs div M
            \<or> length (?shards ! r) = (length xs + M - 1) div M"
  proof (intro allI impI)
    fix r assume r: "r < M"
    have l: "length (islice xs r M) = length xs div M + (if r < length xs mod M then 1 else 0)"
      using islice_shape[OF r, of xs] by simp
    show "length (?shards ! r) = length xs div M
            \<or> length (?shards ! r) = (length xs + M - 1) div M"
      unfolding nth[OF r] l ceiling_div[OF M] by auto
  qed
  have empty: "\<forall>r<M. length xs \<le> r \<longrightarrow> ?shards ! r = []"
  proof (intro allI impI)
    fix r assume r: "r < M" and le: "length xs \<le> r"
    have "length xs < M" using r le by simp
    then have "length xs div M = 0" "length xs mod M = length xs" by simp_all
    then have "length (islice xs r M) = 0"
      using islice_shape[OF r, of xs] le by simp
    then show "?shards ! r = []"
      by (simp only: nth[OF r] length_0_conv)
  qed
  show ?thesis
    by (intro exI[of _ ?shards] conjI d len elem pos ms total sizes empty)
qed

theorem distribute_round_robin_witness:
  "distribute 3 [1, 2, 3, 4, 5, 6, 7 :: nat] = Inr [[1, 4, 7], [2, 5], [3, 6]]
   \<and> mset (concat [[1, 4, 7], [2, 5], [3, 6 :: nat]]) = mset [1, 2, 3, 4, 5, 6, 7]"
proof -
  have e: "distribute 3 [1, 2, 3, 4, 5, 6, 7 :: nat] = Inr [[1, 4, 7], [2, 5], [3, 6]]"
    by code_simp
  obtain shards where s: "distribute (int 3) [1, 2, 3, 4, 5, 6, 7 :: nat] = Inr shards"
      "mset (concat shards) = mset [1, 2, 3, 4, 5, 6, 7]"
    using distribute_round_robin[of 3 "[1, 2, 3, 4, 5, 6, 7 :: nat]"] by auto
  have "shards = [[1, 4, 7], [2, 5], [3, 6]]"
    using s(1) e by simp
  then show ?thesis
    using e s(2) by simp
qed

section \<open>The generator and the composition with leaders and rounds\<close>

lemma wf_folder_path: "wf (g\<lparr>folder_path := p\<rparr>) = wf g"
  by (simp add: wf_def)

lemma wfD:
  assumes "wf g"
  shows "0 < number_of_nodes g" and "0 < number_of_partitions g" and "0 < number_of_rounds g"
    and "0 < machine_index g" and "machine_index g \<le> number_of_machines g"
    and "f g = (number_of_nodes g - 1) div 3"
    and "nodes g = [0..<nat (number_of_nodes g + f g)]"
    and "number_of_partitions g \<le> int (length (nodes g))"
  using assms unfolding wf_def by blast+

lemma wf_f_nonneg:
  assumes "wf g"
  shows "0 \<le> f g"
proof -
  have "0 \<le> (number_of_nodes g - 1) div 3"
    using wfD(1)[OF assms] by (simp add: pos_imp_zdiv_nonneg_iff)
  then show ?thesis
    by (simp only: wfD(6)[OF assms])
qed

lemma wf_nodes: "wf g \<Longrightarrow> length (nodes g) = nat (number_of_nodes g + f g)"
  using wfD(7)[of g] by simp

lemma wf_target_nodes:
  assumes "wf g"
  shows "target_nodes g = [0..<nat (f g)]"
proof -
  have "nat (f g) \<le> nat (number_of_nodes g + f g)"
    using wfD(1)[OF assms] wf_f_nonneg[OF assms] by simp
  then have "take (nat (f g)) [0..<nat (number_of_nodes g + f g)] = [0..<nat (f g)]"
    by (simp add: take_upt)
  then show ?thesis
    using wf_f_nonneg[OF assms] wfD(7)[OF assms] by (simp add: target_nodes_def slice_to_def)
qed

lemma wf_counts:
  assumes "wf g"
  shows "1 \<le> nat (number_of_partitions g)"
    and "nat (number_of_partitions g) \<le> length (nodes g)"
  using wfD(2)[OF assms] wfD(8)[OF assms] by simp_all

lemma wf_testcases_length:
  assumes "wf g"
  shows "testcases_length g
    = Inr ((int (Stirling (length (nodes g)) (nat (number_of_partitions g))) * f g)
            ^ nat (number_of_rounds g))"
  using S_value[OF wf_counts[OF assms]] wf_f_nonneg[OF assms]
  by (simp add: testcases_length_def wf_target_nodes[OF assms])

lemma init_success:
  assumes "0 < nn" and "0 < np" and "0 < nr" and "0 < mi" and "mi \<le> nm"
    and "np \<le> nn + (nn - 1) div 3"
  shows "init (PyInt nn) (PyInt np) (PyInt nr) flt (PyStr fp) (PyInt mi) (PyInt nm)
    = Inr \<lparr> number_of_nodes = nn, number_of_partitions = np, number_of_rounds = nr,
            folder_path = fp, machine_index = mi, number_of_machines = nm,
            filter' = (case flt of None \<Rightarrow> (\<lambda>t. t \<noteq> []) | Some p \<Rightarrow> p),
            f = (nn - 1) div 3, nodes = [0..<nat (nn + (nn - 1) div 3)] \<rparr>"
proof -
  let ?g = "\<lparr> number_of_nodes = nn, number_of_partitions = np, number_of_rounds = nr,
            folder_path = fp, machine_index = mi, number_of_machines = nm,
            filter' = (case flt of None \<Rightarrow> (\<lambda>t. t \<noteq> []) | Some p \<Rightarrow> p),
            f = (nn - 1) div 3, nodes = [0..<nat (nn + (nn - 1) div 3)] \<rparr>"
  have "0 \<le> (nn - 1) div 3"
    using assms(1) by (simp add: pos_imp_zdiv_nonneg_iff)
  then have "wf ?g"
    using assms by (simp add: wf_def)
  then obtain t where "testcases_length ?g = Inr t"
    using wf_testcases_length by blast
  then show ?thesis
    using assms by (simp add: init_def Let_def)
qed

lemma init_wf:
  assumes "init nn np nr flt fp mi nm = Inr g"
  shows "wf g"
  using assms
  by (auto simp: init_def Let_def wf_def split: if_splits sum.splits)

lemma nth_concat_uniform:
  assumes "\<forall>xs\<in>set xss. length xs = m" and "i < length xss" and "j < m"
  shows "concat xss ! (i * m + j) = xss ! i ! j"
  using assms
proof (induction xss arbitrary: i)
  case Nil
  then show ?case by simp
next
  case (Cons xs xss)
  show ?case
  proof (cases i)
    case 0
    then show ?thesis using Cons.prems by (simp add: nth_append)
  next
    case (Suc i')
    then have "concat xss ! (i' * m + j) = xss ! i' ! j"
      using Cons.IH[of i'] Cons.prems by simp
    then show ?thesis using Cons.prems Suc by (simp add: nth_append)
  qed
qed

lemma length_concat_uniform:
  "\<forall>xs\<in>set xss. length xs = m \<Longrightarrow> length (concat xss) = length xss * m"
  by (induction xss) simp_all

lemma length_product_repeat: "length (product_repeat xs r) = length xs ^ r"
proof (induction r)
  case 0
  show ?case by simp
next
  case (Suc r)
  have "length (concat (map (\<lambda>x. map ((#) x) (product_repeat xs r)) xs))
      = length (map (\<lambda>x. map ((#) x) (product_repeat xs r)) xs) * length xs ^ r"
    by (rule length_concat_uniform) (auto simp: Suc)
  then show ?case by simp
qed

lemma combine_partitions_with_leaders_order_aux:
  assumes "wf g"
  shows "length (combine_partitions_with_leaders g P) = length P * nat (f g)"
proof -
  let ?xss = "map (\<lambda>p. map (\<lambda>leader. (leader, p)) (target_nodes g)) P"
  have "\<forall>xs\<in>set ?xss. length xs = nat (f g)"
    using wf_target_nodes[OF assms] by auto
  then have "length (concat ?xss) = length ?xss * nat (f g)"
    by (rule length_concat_uniform)
  then show ?thesis
    by (simp add: combine_partitions_with_leaders_def)
qed

text \<open>
  C5. For a generator built by the constructor, with f target nodes, and any list of
  partitions P, \<^verbatim>\<open>combine_partitions_with_leaders\<close> yields \<open>|P| * f\<close> scenarios, partition-major
  and leader-minor: scenario \<open>i * f + j\<close> is target node j with partition i; the leader of
  every scenario is a target node.
\<close>

theorem combine_partitions_with_leaders_order:
  assumes "init nn np nr flt fp mi nm = Inr g"
  shows "length (target_nodes g) = nat (f g)
     \<and> length (combine_partitions_with_leaders g P) = length P * nat (f g)
     \<and> (\<forall>i<length P. \<forall>j<nat (f g).
           combine_partitions_with_leaders g P ! (i * nat (f g) + j) = (target_nodes g ! j, P ! i))
     \<and> (\<forall>s\<in>set (combine_partitions_with_leaders g P). fst s \<in> set (target_nodes g))"
proof -
  let ?xss = "map (\<lambda>p. map (\<lambda>leader. (leader, p)) (target_nodes g)) P"
  have tn: "length (target_nodes g) = nat (f g)"
    using wf_target_nodes[OF init_wf[OF assms]] by simp
  have uni: "\<forall>xs\<in>set ?xss. length xs = nat (f g)"
    using tn by auto
  have len: "length (combine_partitions_with_leaders g P) = length P * nat (f g)"
    unfolding combine_partitions_with_leaders_def
    using length_concat_uniform[OF uni] by simp
  have nth: "\<forall>i<length P. \<forall>j<nat (f g).
      combine_partitions_with_leaders g P ! (i * nat (f g) + j) = (target_nodes g ! j, P ! i)"
  proof (intro allI impI)
    fix i j assume i: "i < length P" and j: "j < nat (f g)"
    have "concat ?xss ! (i * nat (f g) + j) = ?xss ! i ! j"
      using i j by (intro nth_concat_uniform[OF uni]) simp_all
    then show "combine_partitions_with_leaders g P ! (i * nat (f g) + j)
        = (target_nodes g ! j, P ! i)"
      using i j tn by (simp add: combine_partitions_with_leaders_def)
  qed
  have leaders: "\<forall>s\<in>set (combine_partitions_with_leaders g P). fst s \<in> set (target_nodes g)"
    by (auto simp: combine_partitions_with_leaders_def)
  show ?thesis
    by (intro conjI tn len nth leaders)
qed

lemma init_gen7:
  "init (PyInt 7) (PyInt 1) (PyInt 1) None (PyStr ''out'') (PyInt 1) (PyInt 1) = Inr gen7"
  by (simp add: init_success gen7_def)

lemma init_gen4:
  "init (PyInt 4) (PyInt 2) (PyInt 3) None (PyStr ''./'') (PyInt 1) (PyInt 1) = Inr gen4"
  by (simp add: init_success gen4_def)

lemma init_gen3:
  "init (PyInt 3) (PyInt 2) (PyInt 2) None (PyStr ''./'') (PyInt 1) (PyInt 1) = Inr gen3"
  by (simp add: init_success gen3_def)

theorem combine_partitions_with_leaders_order_witness:
  "init (PyInt 7) (PyInt 1) (PyInt 1) None (PyStr ''out'') (PyInt 1) (PyInt 1) = Inr gen7
   \<and> length (combine_partitions_with_leaders gen7 [[[0]], [[1]]]) = 2 * 2
   \<and> combine_partitions_with_leaders gen7 [[[0]], [[1]]] ! (1 * 2 + 0) = (0, [[1]])"
proof -
  note th = combine_partitions_with_leaders_order[OF init_gen7, of "[[[0]], [[1]]]"]
  have f7: "nat (f gen7) = 2" and t7: "target_nodes gen7 ! 0 = 0"
    by (simp_all add: gen7_def target_nodes_def slice_to_def)
  have a: "length (combine_partitions_with_leaders gen7 [[[0]], [[1]]])
      = length [[[0::nat]], [[1]]] * nat (f gen7)"
    using th by blast
  have every: "\<forall>i<length [[[0::nat]], [[1]]]. \<forall>j<nat (f gen7).
      combine_partitions_with_leaders gen7 [[[0]], [[1]]] ! (i * nat (f gen7) + j)
        = (target_nodes gen7 ! j, [[[0]], [[1]]] ! i)"
    using th by blast
  have "combine_partitions_with_leaders gen7 [[[0]], [[1]]] ! (1 * nat (f gen7) + 0)
        = (target_nodes gen7 ! 0, [[[0]], [[1]]] ! 1)"
    by (rule every[rule_format]) (simp_all add: f7)
  then have b: "combine_partitions_with_leaders gen7 [[[0]], [[1]]] ! (1 * 2 + 0) = (0, [[1]])"
    using f7 t7 by simp
  show ?thesis
    using init_gen7 a b f7 by simp
qed

lemma wf_make_partitions:
  assumes "wf g"
  shows "\<exists>ps. make_partitions g = Inr ps \<and> enumerates (length (nodes g)) (nat (number_of_partitions g)) ps"
  unfolding make_partitions_def by (rule stirling2_enumerates[OF wf_counts[OF assms]])

text \<open>
  C3. For a generator built by the constructor, the enumeration of the partitions returns,
  the composition with the leaders and then with the rounds returns \<open>S^R\<close> testcases for S
  scenarios and R rounds, and that number is what \<^verbatim>\<open>testcases_length\<close> computes from
  \<^verbatim>\<open>S(n_total, k)\<close>, the number of target nodes and the round count alone, on unbounded
  integers: \<open>(stirling2(n_total, k) * f)^R\<close> with \<open>n_total = number_of_nodes + f\<close>.
\<close>

theorem testcases_count:
  assumes "init nn np nr flt fp mi nm = Inr g"
  shows "\<exists>ps tcs. make_partitions g = Inr ps
     \<and> combine_scenarios_with_rounds g (combine_partitions_with_leaders g ps) = Inr tcs
     \<and> length tcs = length (combine_partitions_with_leaders g ps) ^ nat (number_of_rounds g)
     \<and> testcases_length g = Inr (int (length tcs))
     \<and> S (length (nodes g)) (nat (number_of_partitions g)) = Inr (int (length ps))
     \<and> int (length tcs) = (int (length ps) * f g) ^ nat (number_of_rounds g)
     \<and> length (nodes g) = nat (number_of_nodes g + f g)"
proof -
  have w: "wf g" by (rule init_wf[OF assms])
  obtain ps where ps: "make_partitions g = Inr ps"
      "enumerates (length (nodes g)) (nat (number_of_partitions g)) ps"
    using wf_make_partitions[OF w] by blast
  let ?sc = "combine_partitions_with_leaders g ps"
  let ?tcs = "product_repeat ?sc (nat (number_of_rounds g))"
  have lps: "length ps = Stirling (length (nodes g)) (nat (number_of_partitions g))"
    using ps(2) by (simp add: enumerates_def)
  have c: "combine_scenarios_with_rounds g ?sc = Inr ?tcs"
    using wfD(3)[OF w] by (simp add: combine_scenarios_with_rounds_def)
  have l: "length ?tcs = length ?sc ^ nat (number_of_rounds g)"
    by (rule length_product_repeat)
  have lsc: "length ?sc = length ps * nat (f g)"
    using combine_partitions_with_leaders_order_aux[OF w, of ps] by simp
  have "int (length ?sc) = int (length ps) * f g"
    using lsc wf_f_nonneg[OF w] by simp
  then have cnt: "int (length ?tcs) = (int (length ps) * f g) ^ nat (number_of_rounds g)"
    using l by simp
  have tl: "testcases_length g = Inr (int (length ?tcs))"
    using wf_testcases_length[OF w] cnt lps by simp
  have s: "S (length (nodes g)) (nat (number_of_partitions g)) = Inr (int (length ps))"
    using S_value[OF wf_counts[OF w]] lps by simp
  show ?thesis
    by (intro exI[of _ ps] exI[of _ ?tcs] conjI ps(1) c l tl s cnt wf_nodes[OF w])
qed

theorem testcases_count_witness:
  "init (PyInt 4) (PyInt 2) (PyInt 3) None (PyStr ''./'') (PyInt 1) (PyInt 1) = Inr gen4
   \<and> testcases_length gen4 = Inr 3375
   \<and> (\<exists>ps tcs. make_partitions gen4 = Inr ps
        \<and> combine_scenarios_with_rounds gen4 (combine_partitions_with_leaders gen4 ps) = Inr tcs
        \<and> length ps = 15 \<and> length tcs = 3375)"
proof -
  obtain ps tcs where r: "make_partitions gen4 = Inr ps"
      "combine_scenarios_with_rounds gen4 (combine_partitions_with_leaders gen4 ps) = Inr tcs"
      "testcases_length gen4 = Inr (int (length tcs))"
      "S (length (nodes gen4)) (nat (number_of_partitions gen4)) = Inr (int (length ps))"
    using testcases_count[OF init_gen4] by blast
  have "S 5 2 = Inr 15" by code_simp
  then have lp: "length ps = 15"
    using r(4) by (simp add: gen4_def)
  have "testcases_length gen4 = Inr 3375"
    using \<open>S 5 2 = Inr 15\<close> by (simp add: testcases_length_def gen4_def target_nodes_def slice_to_def)
  moreover from this have "length tcs = 3375"
    using r(3) by simp
  ultimately show ?thesis
    using init_gen4 r(1,2) lp by (intro conjI exI[of _ ps] exI[of _ tcs]) simp_all
qed

section \<open>Rejected and degenerate configurations\<close>

lemma product_repeat_Nil: "0 < r \<Longrightarrow> product_repeat [] r = []"
  by (cases r) simp_all

text \<open>
  C9. With integer arguments, one to three nodes (so that \<open>f = 0\<close>), a partition count
  between 1 and the node count, and a round count and machine arguments the value check
  accepts, the constructor succeeds, there is no target node, \<^verbatim>\<open>testcases_length\<close> is 0, and
  the partitions composed with the leaders and the rounds give no testcase at all.
\<close>

theorem few_nodes_empty_output:
  assumes "1 \<le> nn" and "nn \<le> 3" and "1 \<le> np" and "np \<le> nn" and "1 \<le> nr"
    and "1 \<le> mi" and "mi \<le> nm"
  shows "\<exists>g ps. init (PyInt nn) (PyInt np) (PyInt nr) flt (PyStr fp) (PyInt mi) (PyInt nm) = Inr g
     \<and> f g = 0 \<and> target_nodes g = [] \<and> testcases_length g = Inr 0
     \<and> make_partitions g = Inr ps
     \<and> combine_partitions_with_leaders g ps = []
     \<and> combine_scenarios_with_rounds g (combine_partitions_with_leaders g ps) = Inr []"
proof -
  let ?g = "\<lparr> number_of_nodes = nn, number_of_partitions = np, number_of_rounds = nr,
            folder_path = fp, machine_index = mi, number_of_machines = nm,
            filter' = (case flt of None \<Rightarrow> (\<lambda>t. t \<noteq> []) | Some p \<Rightarrow> p),
            f = (nn - 1) div 3, nodes = [0..<nat (nn + (nn - 1) div 3)] \<rparr>"
  have f0: "(nn - 1) div 3 = 0"
    using assms(1,2) by simp
  have i: "init (PyInt nn) (PyInt np) (PyInt nr) flt (PyStr fp) (PyInt mi) (PyInt nm) = Inr ?g"
    using assms f0 by (intro init_success) simp_all
  have w: "wf ?g" by (rule init_wf[OF i])
  have fg: "f ?g = 0" using f0 by simp
  have tn: "target_nodes ?g = []"
    using wf_target_nodes[OF w] fg by simp
  have tl: "testcases_length ?g = Inr 0"
    using wf_testcases_length[OF w] fg assms(5) by (simp add: power_0_left)
  obtain ps where ps: "make_partitions ?g = Inr ps"
    using wf_make_partitions[OF w] by blast
  have sc: "combine_partitions_with_leaders ?g ps = []"
    by (simp add: combine_partitions_with_leaders_def tn)
  have tc: "combine_scenarios_with_rounds ?g (combine_partitions_with_leaders ?g ps) = Inr []"
    using assms(5) by (simp add: sc combine_scenarios_with_rounds_def product_repeat_Nil)
  show ?thesis
    by (intro exI[of _ ?g] exI[of _ ps] conjI i fg tn tl ps sc tc)
qed

theorem few_nodes_empty_output_witness:
  "init (PyInt 3) (PyInt 2) (PyInt 2) None (PyStr ''./'') (PyInt 1) (PyInt 1) = Inr gen3
   \<and> f gen3 = 0 \<and> target_nodes gen3 = [] \<and> testcases_length gen3 = Inr 0
   \<and> make_partitions gen3 = Inr [[[0, 1], [2]], [[0, 2], [1]], [[0], [1, 2]]]
   \<and> combine_scenarios_with_rounds gen3
        (combine_partitions_with_leaders gen3 [[[0, 1], [2]], [[0, 2], [1]], [[0], [1, 2]]]) = Inr []"
proof -
  obtain g ps where r: "init (PyInt 3) (PyInt 2) (PyInt 2) None (PyStr ''./'') (PyInt 1) (PyInt 1) = Inr g"
      "f g = 0" "target_nodes g = []" "testcases_length g = Inr 0" "make_partitions g = Inr ps"
      "combine_scenarios_with_rounds g (combine_partitions_with_leaders g ps) = Inr []"
    using few_nodes_empty_output[of 3 2 2 1 1 None "''./''"] by auto
  have g: "g = gen3"
    using r(1) init_gen3 by simp
  have "stirling2 3 2 = Inr [[[0, 1], [2]], [[0, 2], [1]], [[0], [1, 2]]]"
    by code_simp
  then have "make_partitions gen3 = Inr [[[0, 1], [2]], [[0, 2], [1]], [[0], [1, 2]]]"
    by (simp add: make_partitions_def gen3_def)
  then show ?thesis
    using r g init_gen3 by simp
qed

text \<open>
  C7. The constructor raises TypeError when one of its integer arguments is not an \<^verbatim>\<open>int\<close> (or
  the folder path not a string). With arguments of the right types it raises ValueError when
  a node, partition or round count is not positive, when the machine index is not between 1
  and the number of machines, or when the partition count exceeds \<open>number_of_nodes + f\<close>.
  \<^verbatim>\<open>run\<close> raises TypeError and ValueError in the same way for its own parameters, and then
  leaves the generator and the file system as they were: nothing has been enumerated or
  written.
\<close>

theorem configuration_errors:
  "(\<not> (isinstance_int nn \<and> isinstance_int np \<and> isinstance_int nr \<and> isinstance_str fp
         \<and> isinstance_int mi \<and> isinstance_int nm)
      \<longrightarrow> init nn np nr flt fp mi nm = Inl TypeError)
   \<and> (isinstance_int nn \<and> isinstance_int np \<and> isinstance_int nr \<and> isinstance_str fp
         \<and> isinstance_int mi \<and> isinstance_int nm
       \<and> (int_of nn \<le> 0 \<or> int_of np \<le> 0 \<or> int_of nr \<le> 0 \<or> int_of mi \<le> 0
            \<or> int_of nm < int_of mi \<or> int_of nn + (int_of nn - 1) div 3 < int_of np)
      \<longrightarrow> init nn np nr flt fp mi nm = Inl ValueError)
   \<and> (\<not> (isinstance_bool dryrun \<and> isinstance_int workers \<and> isinstance_int tpf)
      \<longrightarrow> run g s tmp dryrun workers tpf = Some (g, s, Some TypeError))
   \<and> (isinstance_bool dryrun \<and> isinstance_int workers \<and> isinstance_int tpf
        \<and> (int_of workers \<le> 0 \<or> int_of tpf \<le> 0)
      \<longrightarrow> run g s tmp dryrun workers tpf = Some (g, s, Some ValueError))"
proof (intro conjI impI)
  assume "\<not> (isinstance_int nn \<and> isinstance_int np \<and> isinstance_int nr \<and> isinstance_str fp
         \<and> isinstance_int mi \<and> isinstance_int nm)"
  then show "init nn np nr flt fp mi nm = Inl TypeError"
    by (simp add: init_def)
next
  assume a: "isinstance_int nn \<and> isinstance_int np \<and> isinstance_int nr \<and> isinstance_str fp
         \<and> isinstance_int mi \<and> isinstance_int nm
       \<and> (int_of nn \<le> 0 \<or> int_of np \<le> 0 \<or> int_of nr \<le> 0 \<or> int_of mi \<le> 0
            \<or> int_of nm < int_of mi \<or> int_of nn + (int_of nn - 1) div 3 < int_of np)"
  show "init nn np nr flt fp mi nm = Inl ValueError"
  proof (cases "int_of nn > 0 \<and> int_of np > 0 \<and> int_of nr > 0 \<and> int_of mi > 0
                  \<and> int_of nm \<ge> int_of mi")
    case False
    then show ?thesis using a by (simp add: init_def)
  next
    case True
    then have big: "int_of nn + (int_of nn - 1) div 3 < int_of np"
      using a by auto
    have "0 \<le> (int_of nn - 1) div 3"
      using True by (simp add: pos_imp_zdiv_nonneg_iff)
    then have "int (nat (int_of nn + (int_of nn - 1) div 3)) < int_of np"
      using True big by simp
    then show ?thesis
      using a True by (simp add: init_def Let_def)
  qed
next
  assume "\<not> (isinstance_bool dryrun \<and> isinstance_int workers \<and> isinstance_int tpf)"
  then show "run g s tmp dryrun workers tpf = Some (g, s, Some TypeError)"
    by (simp add: run_def)
next
  assume "isinstance_bool dryrun \<and> isinstance_int workers \<and> isinstance_int tpf
        \<and> (int_of workers \<le> 0 \<or> int_of tpf \<le> 0)"
  then show "run g s tmp dryrun workers tpf = Some (g, s, Some ValueError)"
    by (auto simp: run_def)
qed

theorem configuration_errors_witness:
  "init (PyInt 4) (PyStr ''a'') (PyInt 8) None (PyStr ''./'') (PyInt 1) (PyInt 1) = Inl TypeError
   \<and> init (PyInt 4) (PyInt 2) (PyInt 8) None (PyStr ''./'') (PyInt (- 1)) (PyInt 1) = Inl ValueError
   \<and> init (PyInt 4) (PyInt 20) (PyInt 8) None (PyStr ''./'') (PyInt 1) (PyInt 1) = Inl ValueError
   \<and> run gen4 \<lparr>dirs = {''./''}, files = Map.empty\<rparr> ''tmp'' (PyBool True) (PyStr ''a'') (PyInt 1000)
       = Some (gen4, \<lparr>dirs = {''./''}, files = Map.empty\<rparr>, Some TypeError)
   \<and> run gen4 \<lparr>dirs = {''./''}, files = Map.empty\<rparr> ''tmp'' (PyBool True) (PyInt 0) (PyInt 1000)
       = Some (gen4, \<lparr>dirs = {''./''}, files = Map.empty\<rparr>, Some ValueError)"
proof -
  let ?s = "\<lparr>dirs = {''./''}, files = Map.empty\<rparr>"
  have 1: "init (PyInt 4) (PyStr ''a'') (PyInt 8) None (PyStr ''./'') (PyInt 1) (PyInt 1) = Inl TypeError"
    using configuration_errors[of "PyInt 4" "PyStr ''a''" "PyInt 8" "PyStr ''./''" "PyInt 1" "PyInt 1" None]
    by simp
  have 2: "init (PyInt 4) (PyInt 2) (PyInt 8) None (PyStr ''./'') (PyInt (- 1)) (PyInt 1) = Inl ValueError"
    using configuration_errors[of "PyInt 4" "PyInt 2" "PyInt 8" "PyStr ''./''" "PyInt (- 1)" "PyInt 1" None]
    by simp
  have 3: "init (PyInt 4) (PyInt 20) (PyInt 8) None (PyStr ''./'') (PyInt 1) (PyInt 1) = Inl ValueError"
    using configuration_errors[of "PyInt 4" "PyInt 20" "PyInt 8" "PyStr ''./''" "PyInt 1" "PyInt 1" None]
    by simp
  have 4: "run gen4 ?s ''tmp'' (PyBool True) (PyStr ''a'') (PyInt 1000) = Some (gen4, ?s, Some TypeError)"
    using configuration_errors[where dryrun="PyBool True" and workers="PyStr ''a''"
        and tpf="PyInt 1000" and g=gen4 and s="?s" and tmp="''tmp''"]
    by simp
  have 5: "run gen4 ?s ''tmp'' (PyBool True) (PyInt 0) (PyInt 1000) = Some (gen4, ?s, Some ValueError)"
    using configuration_errors[where dryrun="PyBool True" and workers="PyInt 0"
        and tpf="PyInt 1000" and g=gen4 and s="?s" and tmp="''tmp''"]
    by simp
  show ?thesis
    using 1 2 3 4 5 by (intro conjI)
qed

section \<open>Chunking\<close>

lemma concat_chunks_of: "0 < n \<Longrightarrow> concat (chunks_of xs n) = xs"
proof (induction xs n rule: chunks_of.induct)
  case (1 xs n)
  show ?case
  proof (cases "xs = []")
    case True
    then show ?thesis by (subst chunks_of.simps) simp
  next
    case False
    then have "concat (chunks_of (drop n xs) n) = drop n xs"
      using 1 by simp
    then show ?thesis
      using False 1(2) by (subst chunks_of.simps) simp
  qed
qed

lemma chunks_of_Nil: "chunks_of [] n = []"
  by (subst chunks_of.simps) simp

lemma chunks_of_single:
  assumes "xs \<noteq> []" and "length xs \<le> n"
  shows "chunks_of xs n = [xs]"
proof -
  have "0 < n" using assms by (cases xs) auto
  then show ?thesis
    using assms by (subst chunks_of.simps) (simp add: chunks_of_Nil)
qed

lemma chunk_sizes:
  "0 < n \<Longrightarrow> c \<in> set (chunks_of xs n) \<Longrightarrow> c \<noteq> [] \<and> length c \<le> n"
proof (induction xs n rule: chunks_of.induct)
  case (1 xs n)
  show ?case
  proof (cases "xs = []")
    case True
    then show ?thesis using 1(3) by (simp add: chunks_of_Nil)
  next
    case False
    have "c = take n xs \<or> c \<in> set (chunks_of (drop n xs) n)"
      using 1(3) False 1(2) by (subst (asm) chunks_of.simps) simp
    then show ?thesis
    proof
      assume "c = take n xs"
      then show ?thesis using False 1(2) by simp
    next
      assume "c \<in> set (chunks_of (drop n xs) n)"
      then show ?thesis using 1(1)[OF _ 1(2)] False 1(2) by simp
    qed
  qed
qed

lemma chunk_sizes_exact:
  "0 < n \<Longrightarrow> length xs mod n = 0 \<Longrightarrow> c \<in> set (chunks_of xs n) \<Longrightarrow> length c = n"
proof (induction xs n rule: chunks_of.induct)
  case (1 xs n)
  show ?case
  proof (cases "xs = []")
    case True
    then show ?thesis using 1(4) by (simp add: chunks_of_Nil)
  next
    case False
    then have "0 < length xs" by simp
    then have ge: "n \<le> length xs"
      using 1(3) by (metis mod_less neq0_conv not_le)
    then have m: "length (drop n xs) mod n = 0"
      using 1(3) by (simp add: le_mod_geq)
    have "c = take n xs \<or> c \<in> set (chunks_of (drop n xs) n)"
      using 1(4) False 1(2) by (subst (asm) chunks_of.simps) simp
    then show ?thesis
    proof
      assume "c = take n xs"
      then show ?thesis using ge by simp
    next
      assume "c \<in> set (chunks_of (drop n xs) n)"
      then show ?thesis using 1(1)[OF _ 1(2) m] False 1(2) by simp
    qed
  qed
qed

lemma length_chunks_of: "0 < n \<Longrightarrow> length (chunks_of xs n) = (length xs + n - 1) div n"
proof (induction xs n rule: chunks_of.induct)
  case (1 xs n)
  show ?case
  proof (cases "xs = []")
    case True
    then show ?thesis using 1(2) by (simp add: chunks_of_Nil)
  next
    case ne: False
    show ?thesis
    proof (cases "length xs \<le> n")
      case le: True
      have pos: "0 < length xs" using ne by simp
      have "length xs div n + (if length xs mod n = 0 then 0 else 1) = 1"
      proof (cases "length xs = n")
        case True
        then show ?thesis using 1(2) by simp
      next
        case False
        then have "length xs < n" using le by simp
        then show ?thesis using pos by simp
      qed
      then have "(length xs + n - 1) div n = 1"
        using ceiling_div[OF 1(2), of "length xs"] by simp
      then show ?thesis using chunks_of_single[OF ne le] by simp
    next
      case gt: False
      have step: "length (chunks_of xs n) = Suc (length (chunks_of (drop n xs) n))"
        using ne 1(2) by (subst chunks_of.simps) simp
      have ih: "length (chunks_of (drop n xs) n) = (length xs - n + n - 1) div n"
        using 1(1)[OF _ 1(2)] ne 1(2) by simp
      have "(length xs + n - 1) div n = Suc ((length xs - n + n - 1) div n)"
        using 1(2) gt by (simp add: le_div_geq)
      then show ?thesis using step ih by simp
    qed
  qed
qed

text \<open>
  An empty shard against C8 as it is written: the chunk size 1 is larger than the length 0
  of the shard, yet the writer forms no chunk and writes nothing.
\<close>

theorem empty_shard_counterexample:
  "int (length ([] :: testcase list)) < 1
   \<and> ichunked ([] :: testcase list) 1 = Some (Inr [])
   \<and> print_single gen4 [] 0 False 1 \<lparr>dirs = {''./''}, files = Map.empty\<rparr>
       = Some (\<lparr>dirs = {''./''}, files = Map.empty\<rparr>, None)"
  by (simp add: ichunked_def print_single_def)

text \<open>
  C8, amended. For every shard of length L and every chunk size \<open>tpf > 0\<close> the writer runs its
  loop over \<open>ceil(L / tpf)\<close> consecutive chunks that together are the shard: none for an
  empty shard, exactly one (the whole shard) for a non-empty shard with \<open>L \<le> tpf\<close>; no
  chunk is empty or larger than tpf, and when L is an exact multiple of tpf every chunk holds
  exactly tpf testcases.
\<close>

theorem chunked_writer_chunks:
  assumes "0 < tpf"
  shows "\<exists>chunks. ichunked xs tpf = Some (Inr chunks)
     \<and> print_single g xs process_id dryrun tpf s
          = Some (write_chunks g process_id dryrun 0 chunks s)
     \<and> concat chunks = xs
     \<and> length chunks = (length xs + nat tpf - 1) div nat tpf
     \<and> (xs = [] \<longrightarrow> chunks = [])
     \<and> (xs \<noteq> [] \<and> int (length xs) \<le> tpf \<longrightarrow> chunks = [xs])
     \<and> (length xs mod nat tpf = 0 \<longrightarrow> (\<forall>c\<in>set chunks. length c = nat tpf))
     \<and> (\<forall>c\<in>set chunks. c \<noteq> [] \<and> length c \<le> nat tpf)"
proof -
  let ?n = "nat tpf"
  let ?chunks = "chunks_of xs ?n"
  have n: "0 < ?n" using assms by simp
  have i: "ichunked xs tpf = Some (Inr ?chunks)"
    using assms by (simp add: ichunked_def chunks_of_Nil)
  have p: "print_single g xs process_id dryrun tpf s
          = Some (write_chunks g process_id dryrun 0 ?chunks s)"
    by (simp add: print_single_def i)
  have c: "concat ?chunks = xs"
    by (rule concat_chunks_of[OF n])
  have l: "length ?chunks = (length xs + ?n - 1) div ?n"
    by (rule length_chunks_of[OF n])
  have e: "xs = [] \<longrightarrow> ?chunks = []"
    by (simp add: chunks_of_Nil)
  have o: "xs \<noteq> [] \<and> int (length xs) \<le> tpf \<longrightarrow> ?chunks = [xs]"
    by (auto intro: chunks_of_single)
  have x: "length xs mod ?n = 0 \<longrightarrow> (\<forall>c\<in>set ?chunks. length c = ?n)"
    by (intro impI ballI) (rule chunk_sizes_exact[OF n])
  have z: "\<forall>c\<in>set ?chunks. c \<noteq> [] \<and> length c \<le> ?n"
    by (intro ballI) (rule chunk_sizes[OF n])
  show ?thesis
    by (intro exI[of _ ?chunks] conjI i p c l e o x z)
qed

theorem chunked_writer_chunks_witness:
  "ichunked ([[(0, [[0]])], [(0, [[1]])], [(0, [[2]])]] :: testcase list) 2
      = Some (Inr [[[(0, [[0]])], [(0, [[1]])]], [[(0, [[2]])]]])
   \<and> ichunked ([[(0, [[0]])], [(0, [[1]])], [(0, [[2]])]] :: testcase list) 5
      = Some (Inr [[[(0, [[0]])], [(0, [[1]])], [(0, [[2]])]]])
   \<and> (3 + nat 2 - 1) div nat 2 = (2 :: nat)"
proof -
  let ?xs = "[[(0, [[0]])], [(0, [[1]])], [(0, [[2]])]] :: testcase list"
  have two: "(0 :: int) < 2" and five: "(0 :: int) < 5"
    by simp_all
  obtain a where a: "ichunked ?xs 2 = Some (Inr a)" "concat a = ?xs"
      "length a = (length ?xs + nat 2 - 1) div nat 2"
      "\<forall>c\<in>set a. c \<noteq> [] \<and> length c \<le> nat 2"
    using chunked_writer_chunks[OF two, of ?xs] by blast
  obtain b where b: "ichunked ?xs 5 = Some (Inr b)"
      "?xs \<noteq> [] \<and> int (length ?xs) \<le> 5 \<longrightarrow> b = [?xs]"
    using chunked_writer_chunks[OF five, of ?xs] by blast
  have "ichunked ?xs 2 = Some (Inr [[[(0, [[0]])], [(0, [[1]])]], [[(0, [[2]])]]])"
    by code_simp
  moreover have "b = [?xs]"
    using b(2) by simp
  ultimately show ?thesis
    using b(1) by simp
qed

section \<open>The run and its worker processes\<close>

lemma gen7_fields:
  "number_of_nodes gen7 = 7" "number_of_partitions gen7 = 1" "number_of_rounds gen7 = 1"
  "folder_path gen7 = ''out''" "machine_index gen7 = 1" "number_of_machines gen7 = 1"
  "filter' gen7 = (\<lambda>t. t \<noteq> [])" "f gen7 = 2" "nodes gen7 = [0..<9]"
  by (simp_all add: gen7_def)

lemma str_digits: "str 0 = ''0''" "str 1 = ''1''"
  by code_simp+

lemma paths:
  "join ''out'' ''testcase-1-0-0'' = ''out/testcase-1-0-0''"
  "join ''out'' ''testcase-1-1-0'' = ''out/testcase-1-1-0''"
  by (simp_all add: join_def)

lemma gen7_testcases_length: "testcases_length gen7 = Inr 2"
proof -
  have "S 9 1 = Inr 1" by code_simp
  then show ?thesis
    by (simp add: testcases_length_def gen7_fields target_nodes_def slice_to_def)
qed

lemma gen7_make_partitions: "make_partitions gen7 = Inr [[[0..<9]]]"
proof -
  have "stirling2 9 1 = Inr [[[0..<9]]]" by code_simp
  then show ?thesis by (simp add: make_partitions_def gen7_fields)
qed

lemma gen7_target_nodes: "target_nodes gen7 = [0, Suc 0]"
  by (simp add: target_nodes_def gen7_fields slice_to_def upt_rec)

lemma gen7_testcases: "combine_scenarios_with_rounds gen7 (combine_partitions_with_leaders gen7 [[[0..<9]]])
   = Inr [[(0, [[0..<9]])], [(Suc 0, [[0..<9]])]]"
  by (simp add: combine_scenarios_with_rounds_def combine_partitions_with_leaders_def gen7_target_nodes gen7_fields)

lemma distribute_one: "distribute 1 xs = Inr [xs]"
proof -
  have "islice_from p 0 (Suc 0) xs = xs" for p
    by (induction xs arbitrary: p) simp_all
  then show ?thesis by (simp add: distribute_def islice_def)
qed

lemma distribute_two: "distribute 2 [a, b] = Inr [[a], [b]]"
  by (simp add: distribute_def islice_def upt_rec numeral_2_eq_2)

lemma gen7_twins: "get_twin gen7 0 = Inr 7" "get_twin gen7 (Suc 0) = Inr 8"
  by (simp_all add: get_twin_def gen7_target_nodes getitem_def gen7_fields)

lemma gen7_documents:
  "JSONFormat_make gen7 [[(0, [[0..<9]])]] (\<lambda>t. t \<noteq> [])
     = Inr \<lparr>num_of_nodes = 7, num_of_twins = 2, scenarios = [([(Suc 0, [0, 7])], [(Suc 0, [[0..<9]])])]\<rparr>"
  "JSONFormat_make gen7 [[(Suc 0, [[0..<9]])]] (\<lambda>t. t \<noteq> [])
     = Inr \<lparr>num_of_nodes = 7, num_of_twins = 2, scenarios = [([(Suc 0, [Suc 0, 8])], [(Suc 0, [[0..<9]])])]\<rparr>"
  by (simp_all add: JSONFormat_make_def format_scenario_def gen7_target_nodes gen7_twins gen7_fields)

lemma ichunked_one: "ichunked [t] 1000 = Some (Inr [[t]])"
  by (simp add: ichunked_def chunks_of_single)

lemma gen7_worker_0: "print_single gen7 [[(0, [[0..<9]])]] 0 False 1000 bad_fs = Some (bad_fs, Some OSError)"
  by (simp add: print_single_def ichunked_one gen7_documents gen7_fields append_file_def paths bad_fs_def str_digits)

lemma gen7_worker_1: "print_single gen7 [[(Suc 0, [[0..<9]])]] (Suc 0) False 1000 bad_fs
   = Some (bad_fs\<lparr>files := [''out/testcase-1-1-0'' \<mapsto>
        [\<lparr>num_of_nodes = 7, num_of_twins = 2, scenarios = [([(Suc 0, [Suc 0, 8])], [(Suc 0, [[0..<9]])])]\<rparr>]]\<rparr>, None)"
  by (simp add: print_single_def ichunked_one gen7_documents gen7_fields append_file_def paths bad_fs_def str_digits)

lemma two_workers: "[0..<2] = [0, Suc 0]"
  by (simp add: upt_rec numeral_2_eq_2)

lemma gen7_print: "print gen7 [[(0, [[0..<9]])], [(Suc 0, [[0..<9]])]] False 2 1000 bad_fs
   = Some (bad_fs\<lparr>files := [''out/testcase-1-1-0'' \<mapsto>
        [\<lparr>num_of_nodes = 7, num_of_twins = 2, scenarios = [([(Suc 0, [Suc 0, 8])], [(Suc 0, [[0..<9]])])]\<rparr>]]\<rparr>,
       Inr [1, 0])"
  by (simp add: print_def distribute_two two_workers gen7_worker_0 gen7_worker_1)

lemma gen7_run: "run gen7 bad_fs ''tmp'' (PyBool False) (PyInt 2) (PyInt 1000)
   = Some (gen7, bad_fs\<lparr>files := [''out/testcase-1-1-0'' \<mapsto>
        [\<lparr>num_of_nodes = 7, num_of_twins = 2, scenarios = [([(Suc 0, [Suc 0, 8])], [(Suc 0, [[0..<9]])])]\<rparr>]]\<rparr>,
       None)"
  by (simp add: run_def gen7_testcases_length gen7_make_partitions gen7_testcases distribute_one getitem_def gen7_fields gen7_print float_overflow_def)

lemma ichunked_positive: "0 < tpf \<Longrightarrow> ichunked xs tpf = Some (Inr (chunks_of xs (nat tpf)))"
  by (simp add: ichunked_def chunks_of_Nil)

lemma print_single_returns:
  "0 < tpf \<Longrightarrow> print_single g xs pid d tpf s
     = Some (write_chunks g pid d 0 (chunks_of xs (nat tpf)) s)"
  by (simp add: print_single_def ichunked_positive)

lemma run_jobs_returns:
  assumes "0 < tpf"
  shows "\<exists>s' codes. run_jobs g d tpf chunks js s = Some (s', codes) \<and> length codes = length js"
proof (induction js arbitrary: s)
  case Nil
  show ?case by simp
next
  case (Cons j js)
  obtain s1 r where w: "write_chunks g j d 0 (chunks_of (chunks ! j) (nat tpf)) s = (s1, r)"
    by (cases "write_chunks g j d 0 (chunks_of (chunks ! j) (nat tpf)) s") blast
  obtain s' codes where j: "run_jobs g d tpf chunks js s1 = Some (s', codes)"
      "length codes = length js"
    using Cons.IH[of s1] by blast
  show ?case
    using w j by (simp add: print_single_returns[OF assms])
qed

lemma print_returns:
  assumes "1 \<le> w" and "0 < tpf"
  shows "\<exists>s' codes. print g tcs d w tpf s = Some (s', Inr codes) \<and> length codes = nat w"
proof -
  have dist: "distribute w tcs = Inr (map (\<lambda>index. islice tcs index (nat w)) [0..<nat w])"
    using assms(1) by (simp add: distribute_def)
  obtain s' codes where j:
      "run_jobs g d tpf (map (\<lambda>index. islice tcs index (nat w)) [0..<nat w]) [0..<nat w] s
         = Some (s', codes)" "length codes = length [0..<nat w]"
    using run_jobs_returns[OF assms(2)] by blast
  show ?thesis
    using j by (simp add: print_def dist)
qed

lemma testcases_length_folder_path:
  "testcases_length (g\<lparr>folder_path := p\<rparr>) = testcases_length g"
  by (simp add: testcases_length_def target_nodes_def split: sum.splits)

lemma run_reaches_print:
  assumes "wf g" and "testcases_length g = Inr t" and "\<not> float_overflow t"
    and "0 < w" and "0 < tpf"
  shows "\<exists>shard. run g s tmp (PyBool d) (PyInt w) (PyInt tpf)
     = (case print (if d then g\<lparr>folder_path := tmp\<rparr> else g) shard d w tpf
               (if d then mkdtemp tmp s else s) of
          None \<Rightarrow> None
        | Some (s2, Inl e) \<Rightarrow> Some (if d then g\<lparr>folder_path := tmp\<rparr> else g,
                                   (if d then cleanup tmp else (\<lambda>x. x)) s2, Some e)
        | Some (s2, Inr codes) \<Rightarrow> Some (if d then g\<lparr>folder_path := tmp\<rparr> else g,
                                   (if d then cleanup tmp else (\<lambda>x. x)) s2, None))"
proof -
  obtain ps where ps: "make_partitions g = Inr ps"
    using wf_make_partitions[OF assms(1)] by blast
  let ?tcs = "product_repeat (combine_partitions_with_leaders g ps) (nat (number_of_rounds g))"
  let ?shards = "map (\<lambda>index. islice ?tcs index (nat (number_of_machines g)))
                   [0..<nat (number_of_machines g)]"
  have c: "combine_scenarios_with_rounds g (combine_partitions_with_leaders g ps) = Inr ?tcs"
    using wfD(3)[OF assms(1)] by (simp add: combine_scenarios_with_rounds_def)
  have m: "0 < machine_index g" "machine_index g \<le> number_of_machines g"
    using wfD(4,5)[OF assms(1)] by simp_all
  have dist: "distribute (number_of_machines g) ?tcs = Inr ?shards"
    using m by (simp add: distribute_def)
  have gi: "getitem ?shards (machine_index g - 1) = Inr (?shards ! nat (machine_index g - 1))"
    using m by (simp add: getitem_def)
  have r: "number_of_rounds g \<noteq> 0"
    using wfD(3)[OF assms(1)] by simp
  show ?thesis
    using assms(2,3,4,5) r
    by (intro exI[of _ "?shards ! nat (machine_index g - 1)"])
       (simp add: run_def ps c dist gi Let_def del: product_repeat.simps)
qed

lemma run_returns:
  assumes "wf g" and "testcases_length g = Inr t" and "\<not> float_overflow t"
    and "0 < w" and "0 < tpf"
  shows "\<exists>s2. run g s tmp (PyBool d) (PyInt w) (PyInt tpf)
     = Some (if d then g\<lparr>folder_path := tmp\<rparr> else g,
             (if d then cleanup tmp else (\<lambda>x. x)) s2, None)"
proof -
  let ?g1 = "if d then g\<lparr>folder_path := tmp\<rparr> else g"
  let ?s1 = "if d then mkdtemp tmp s else s"
  obtain shard where r: "run g s tmp (PyBool d) (PyInt w) (PyInt tpf)
     = (case print ?g1 shard d w tpf ?s1 of
          None \<Rightarrow> None
        | Some (s2, Inl e) \<Rightarrow> Some (?g1, (if d then cleanup tmp else (\<lambda>x. x)) s2, Some e)
        | Some (s2, Inr codes) \<Rightarrow> Some (?g1, (if d then cleanup tmp else (\<lambda>x. x)) s2, None))"
    using run_reaches_print[OF assms] by blast
  have "1 \<le> w" using assms(4) by simp
  then obtain s2 codes where "print ?g1 shard d w tpf ?s1 = Some (s2, Inr codes)"
    using print_returns[OF _ assms(5)] by blast
  then show ?thesis
    using r by (intro exI[of _ s2]) simp
qed

lemma write_chunks_missing_folder:
  assumes "folder_path g \<notin> dirs s"
  shows "fst (write_chunks g pid d i chunks s) = s"
    and "(snd (write_chunks g pid d i chunks s) = None) = (chunks = [])"
  using assms by (cases chunks; auto simp: append_file_def Let_def split: sum.splits)+

lemma chunks_of_empty_iff: "0 < n \<Longrightarrow> (chunks_of xs n = []) = (xs = [])"
  by (subst chunks_of.simps) simp

lemma run_jobs_missing_folder:
  assumes "folder_path g \<notin> dirs s" and "0 < tpf"
  shows "run_jobs g d tpf chunks js s
     = Some (s, map (\<lambda>j. if chunks ! j = [] then 0 else 1) js)"
proof (induction js)
  case Nil
  show ?case by simp
next
  case (Cons j js)
  let ?w = "write_chunks g j d 0 (chunks_of (chunks ! j) (nat tpf)) s"
  have n: "0 < nat tpf" using assms(2) by simp
  have "fst ?w = s" and "(snd ?w = None) = (chunks ! j = [])"
    using write_chunks_missing_folder[OF assms(1), of j d 0 "chunks_of (chunks ! j) (nat tpf)"]
      chunks_of_empty_iff[OF n, of "chunks ! j"] by simp_all
  then obtain r where r: "?w = (s, r)" "(r = None) = (chunks ! j = [])"
    by (cases ?w) simp
  have "print_single g (chunks ! j) j d tpf s = Some (s, r)"
    using r(1) by (simp only: print_single_returns[OF assms(2)])
  then have "run_jobs g d tpf chunks (j # js) s
      = Some (s, (if r = None then 0 else 1) # map (\<lambda>j. if chunks ! j = [] then 0 else 1) js)"
    using Cons.IH by simp
  then show ?case
    using r(2) by simp
qed

lemma print_missing_folder:
  assumes "folder_path g \<notin> dirs s" and "1 \<le> w" and "0 < tpf"
  shows "print g tcs d w tpf s
     = Some (s, Inr (map (\<lambda>j. if islice tcs j (nat w) = [] then 0 else 1) [0..<nat w]))"
proof -
  let ?chunks = "map (\<lambda>index. islice tcs index (nat w)) [0..<nat w]"
  have dist: "distribute w tcs = Inr ?chunks"
    using assms(2) by (simp add: distribute_def)
  have "map (\<lambda>j. if ?chunks ! j = [] then 0 else (1::nat)) [0..<nat w]
      = map (\<lambda>j. if islice tcs j (nat w) = [] then 0 else 1) [0..<nat w]"
    by (rule map_cong) simp_all
  then show ?thesis
    using run_jobs_missing_folder[OF assms(1,3), of d ?chunks "[0..<nat w]"]
    by (simp add: print_def dist)
qed

lemma append_file_dirs: "append_file s folder name data = Inr s' \<Longrightarrow> dirs s' = dirs s"
  by (auto simp: append_file_def Let_def split: if_splits)

lemma append_file_same_dirs:
  "dirs s = dirs s' \<Longrightarrow>
     (\<exists>e. append_file s folder name data = Inl e \<and> append_file s' folder name data = Inl e)
     \<or> (\<exists>u u'. append_file s folder name data = Inr u \<and> append_file s' folder name data = Inr u'
            \<and> dirs u = dirs u')"
  by (auto simp: append_file_def Let_def)

lemma write_chunks_step:
  "\<exists>name. \<forall>s. write_chunks g pid d i (chunk # rest) s
     = (case JSONFormat_make g chunk (filter' g) of
          Inl e \<Rightarrow> (s, Some e)
        | Inr data \<Rightarrow>
            (case append_file s (folder_path g) name data of
               Inl e \<Rightarrow> (s, Some e)
             | Inr s' \<Rightarrow> write_chunks g pid d (Suc i) rest s'))"
  apply (rule exI)
  apply (rule allI)
  apply (simp only: write_chunks.simps Let_def)
  done

lemma write_chunks_dirs: "dirs (fst (write_chunks g pid d i chunks s)) = dirs s"
proof (induction chunks arbitrary: i s)
  case Nil
  show ?case by simp
next
  case (Cons chunk rest)
  obtain name where step: "\<And>s. write_chunks g pid d i (chunk # rest) s
     = (case JSONFormat_make g chunk (filter' g) of
          Inl e \<Rightarrow> (s, Some e)
        | Inr data \<Rightarrow>
            (case append_file s (folder_path g) name data of
               Inl e \<Rightarrow> (s, Some e)
             | Inr s' \<Rightarrow> write_chunks g pid d (Suc i) rest s'))"
    using write_chunks_step[of g pid d i chunk rest] by blast
  show ?case
    unfolding step using Cons.IH append_file_dirs
    by (auto split: sum.splits)
qed

lemma write_chunks_same_dirs:
  "dirs s = dirs s' \<Longrightarrow>
     snd (write_chunks g pid d i chunks s) = snd (write_chunks g pid d i chunks s')"
proof (induction chunks arbitrary: i s s')
  case Nil
  show ?case by simp
next
  case (Cons chunk rest)
  obtain name where step: "\<And>s. write_chunks g pid d i (chunk # rest) s
     = (case JSONFormat_make g chunk (filter' g) of
          Inl e \<Rightarrow> (s, Some e)
        | Inr data \<Rightarrow>
            (case append_file s (folder_path g) name data of
               Inl e \<Rightarrow> (s, Some e)
             | Inr s' \<Rightarrow> write_chunks g pid d (Suc i) rest s'))"
    using write_chunks_step[of g pid d i chunk rest] by blast
  show ?case
  proof (cases "JSONFormat_make g chunk (filter' g)")
    case (Inl e)
    then show ?thesis unfolding step by simp
  next
    case (Inr data)
    from append_file_same_dirs[OF Cons.prems, of "folder_path g" name data]
    show ?thesis
    proof (elim disjE exE conjE)
      fix e assume "append_file s (folder_path g) name data = Inl e"
        "append_file s' (folder_path g) name data = Inl e"
      then show ?thesis unfolding step using Inr by simp
    next
      fix u u' assume u: "append_file s (folder_path g) name data = Inr u"
        "append_file s' (folder_path g) name data = Inr u'" "dirs u = dirs u'"
      have "snd (write_chunks g pid d (Suc i) rest u) = snd (write_chunks g pid d (Suc i) rest u')"
        by (rule Cons.IH[OF u(3)])
      then show ?thesis unfolding step using Inr u(1,2) by simp
    qed
  qed
qed

lemma print_single_dirs:
  assumes "0 < tpf" and "print_single g xs pid d tpf s = Some (s', r)"
  shows "dirs s' = dirs s"
proof -
  have "s' = fst (write_chunks g pid d 0 (chunks_of xs (nat tpf)) s)"
    using assms(2) by (simp add: print_single_returns[OF assms(1)])
  then show ?thesis by (simp only: write_chunks_dirs)
qed

lemma print_single_same_dirs:
  assumes "0 < tpf" and "dirs s = dirs s0"
  shows "map_option snd (print_single g xs pid d tpf s)
       = map_option snd (print_single g xs pid d tpf s0)"
  using write_chunks_same_dirs[OF assms(2)]
  by (simp add: print_single_returns[OF assms(1)])

lemma run_jobs_chain:
  assumes "0 < tpf"
  shows "\<exists>ss rs. length ss = Suc (length js) \<and> length rs = length js \<and> ss ! 0 = s
     \<and> run_jobs g d tpf chunks js s
         = Some (ss ! length js, map (\<lambda>r. if r = None then 0 else 1) rs)
     \<and> (\<forall>k<length js.
           print_single g (chunks ! (js ! k)) (js ! k) d tpf (ss ! k) = Some (ss ! Suc k, rs ! k)
           \<and> dirs (ss ! k) = dirs s)"
proof (induction js arbitrary: s)
  case Nil
  show ?case by (intro exI[of _ "[s]"] exI[of _ "[]"]) simp
next
  case (Cons j js)
  obtain s1 r where p: "print_single g (chunks ! j) j d tpf s = Some (s1, r)"
    using print_single_returns[OF assms, of g "chunks ! j" j d s]
    by (cases "write_chunks g j d 0 (chunks_of (chunks ! j) (nat tpf)) s") simp
  have d1: "dirs s1 = dirs s"
    by (rule print_single_dirs[OF assms p])
  obtain ss rs where ih: "length ss = Suc (length js)" "length rs = length js" "ss ! 0 = s1"
      "run_jobs g d tpf chunks js s1
         = Some (ss ! length js, map (\<lambda>r. if r = None then 0 else 1) rs)"
      "\<forall>k<length js.
           print_single g (chunks ! (js ! k)) (js ! k) d tpf (ss ! k) = Some (ss ! Suc k, rs ! k)
           \<and> dirs (ss ! k) = dirs s1"
    using Cons.IH[of s1] by blast
  have steps: "\<forall>k<length (j # js).
      print_single g (chunks ! ((j # js) ! k)) ((j # js) ! k) d tpf ((s # ss) ! k)
        = Some ((s # ss) ! Suc k, (r # rs) ! k)
      \<and> dirs ((s # ss) ! k) = dirs s"
  proof (intro allI impI)
    fix k assume k: "k < length (j # js)"
    show "print_single g (chunks ! ((j # js) ! k)) ((j # js) ! k) d tpf ((s # ss) ! k)
        = Some ((s # ss) ! Suc k, (r # rs) ! k)
      \<and> dirs ((s # ss) ! k) = dirs s"
    proof (cases k)
      case 0
      then show ?thesis using p ih(3) by simp
    next
      case (Suc k')
      then have "k' < length js" using k by simp
      then show ?thesis using ih(5) Suc d1 by simp
    qed
  qed
  show ?case
    using ih(1,2,4) p steps
    by (intro exI[of _ "s # ss"] exI[of _ "r # rs"]) simp
qed

lemma print_chain:
  assumes "1 \<le> w" and "0 < tpf"
  shows "\<exists>ss rs. length ss = Suc (nat w) \<and> length rs = nat w \<and> ss ! 0 = s
     \<and> print g tcs d w tpf s
         = Some (ss ! nat w, Inr (map (\<lambda>r. if r = None then 0 else 1) rs))
     \<and> (\<forall>i<nat w.
           print_single g (islice tcs i (nat w)) i d tpf (ss ! i) = Some (ss ! Suc i, rs ! i)
           \<and> map_option snd (print_single g (islice tcs i (nat w)) i d tpf s) = Some (rs ! i))"
proof -
  let ?chunks = "map (\<lambda>index. islice tcs index (nat w)) [0..<nat w]"
  have dist: "distribute w tcs = Inr ?chunks"
    using assms(1) by (simp add: distribute_def)
  obtain ss rs where c: "length ss = Suc (length [0..<nat w])" "length rs = length [0..<nat w]"
      "ss ! 0 = s"
      "run_jobs g d tpf ?chunks [0..<nat w] s
         = Some (ss ! length [0..<nat w], map (\<lambda>r. if r = None then 0 else 1) rs)"
      "\<forall>k<length [0..<nat w].
           print_single g (?chunks ! ([0..<nat w] ! k)) ([0..<nat w] ! k) d tpf (ss ! k)
             = Some (ss ! Suc k, rs ! k)
           \<and> dirs (ss ! k) = dirs s"
    using run_jobs_chain[OF assms(2), of "[0..<nat w]" s g d ?chunks] by blast
  have p: "print g tcs d w tpf s
         = Some (ss ! nat w, Inr (map (\<lambda>r. if r = None then 0 else 1) rs))"
    using c(4) by (simp add: print_def dist)
  have each: "\<forall>i<nat w.
           print_single g (islice tcs i (nat w)) i d tpf (ss ! i) = Some (ss ! Suc i, rs ! i)
           \<and> map_option snd (print_single g (islice tcs i (nat w)) i d tpf s) = Some (rs ! i)"
  proof (intro allI impI)
    fix i assume i: "i < nat w"
    have own: "print_single g (islice tcs i (nat w)) i d tpf (ss ! i) = Some (ss ! Suc i, rs ! i)"
      and same: "dirs (ss ! i) = dirs s"
      using c(5) i by simp_all
    have "map_option snd (print_single g (islice tcs i (nat w)) i d tpf s)
        = map_option snd (print_single g (islice tcs i (nat w)) i d tpf (ss ! i))"
      by (rule print_single_same_dirs[OF assms(2) same, symmetric])
    then show "print_single g (islice tcs i (nat w)) i d tpf (ss ! i) = Some (ss ! Suc i, rs ! i)
           \<and> map_option snd (print_single g (islice tcs i (nat w)) i d tpf s) = Some (rs ! i)"
      using own by simp
  qed
  show ?thesis
    using c(1,2,3) p each by (intro exI[of _ ss] exI[of _ rs]) simp
qed

lemma run_on_machine_shard:
  assumes "wf g" and "testcases_length g = Inr t" and "\<not> float_overflow t"
    and "0 < w" and "0 < tpf"
  shows "\<exists>ps tcs shards s2 codes.
       make_partitions g = Inr ps
     \<and> combine_scenarios_with_rounds g (combine_partitions_with_leaders g ps) = Inr tcs
     \<and> distribute (number_of_machines g) tcs = Inr shards
     \<and> print (if d then g\<lparr>folder_path := tmp\<rparr> else g) (shards ! nat (machine_index g - 1))
          d w tpf (if d then mkdtemp tmp s else s) = Some (s2, Inr codes)
     \<and> run g s tmp (PyBool d) (PyInt w) (PyInt tpf)
         = Some (if d then g\<lparr>folder_path := tmp\<rparr> else g,
                 if d then cleanup tmp s2 else s2, None)"
proof -
  let ?g1 = "if d then g\<lparr>folder_path := tmp\<rparr> else g"
  let ?s1 = "if d then mkdtemp tmp s else s"
  obtain ps where ps: "make_partitions g = Inr ps"
    using wf_make_partitions[OF assms(1)] by blast
  let ?tcs = "product_repeat (combine_partitions_with_leaders g ps) (nat (number_of_rounds g))"
  let ?shards = "map (\<lambda>index. islice ?tcs index (nat (number_of_machines g)))
                   [0..<nat (number_of_machines g)]"
  let ?shard = "?shards ! nat (machine_index g - 1)"
  have c: "combine_scenarios_with_rounds g (combine_partitions_with_leaders g ps) = Inr ?tcs"
    using wfD(3)[OF assms(1)] by (simp add: combine_scenarios_with_rounds_def)
  have m: "0 < machine_index g" "machine_index g \<le> number_of_machines g"
    using wfD(4,5)[OF assms(1)] by simp_all
  have dist: "distribute (number_of_machines g) ?tcs = Inr ?shards"
    using m by (simp add: distribute_def)
  have gi: "getitem ?shards (machine_index g - 1) = Inr ?shard"
    using m by (simp add: getitem_def)
  have r: "number_of_rounds g \<noteq> 0"
    using wfD(3)[OF assms(1)] by simp
  have "1 \<le> w" using assms(4) by simp
  then obtain s2 codes where pr: "print ?g1 ?shard d w tpf ?s1 = Some (s2, Inr codes)"
    using print_returns[OF _ assms(5)] by blast
  have "run g s tmp (PyBool d) (PyInt w) (PyInt tpf)
      = (case print ?g1 ?shard d w tpf ?s1 of
          None \<Rightarrow> None
        | Some (s2, Inl e) \<Rightarrow> Some (?g1, (if d then cleanup tmp else (\<lambda>x. x)) s2, Some e)
        | Some (s2, Inr codes) \<Rightarrow> Some (?g1, (if d then cleanup tmp else (\<lambda>x. x)) s2, None))"
    using assms(2,3,4,5) r
    by (simp add: run_def ps c dist gi Let_def del: product_repeat.simps)
  then have "run g s tmp (PyBool d) (PyInt w) (PyInt tpf)
      = Some (?g1, if d then cleanup tmp s2 else s2, None)"
    using pr by simp
  then show ?thesis
    using ps c dist pr by (intro exI[of _ ps] exI[of _ ?tcs] exI[of _ ?shards]
        exI[of _ s2] exI[of _ codes] conjI)
qed

text \<open>
  C6, amended. On a generator as the constructor leaves it, with a forecast small enough for
  the float conversion of the log messages and positive run parameters: \<^verbatim>\<open>print\<close> runs
  every worker, in turn, on its own share, whatever the workers before it did. The file
  system after worker i is the one its own \<^verbatim>\<open>_print\<close> leaves from the file system it found,
  its exit code is 1 exactly when its own \<^verbatim>\<open>_print\<close> raised, and that outcome is the one it
  has on the file system \<^verbatim>\<open>print\<close> started from: no failure of another worker changes it.
  \<^verbatim>\<open>print\<close> then returns normally, and \<^verbatim>\<open>run\<close>, which calls it on the share of its machine,
  returns without an exception whatever the exit codes are: a worker's failure shows only
  in the exit code of its process, which \<^verbatim>\<open>run\<close> never reads.
\<close>

theorem worker_failures_not_surfaced:
  assumes "wf g" and "testcases_length g = Inr t" and "\<not> float_overflow t"
    and "0 < w" and "0 < tpf"
  shows "(\<exists>ss rs. length ss = Suc (nat w) \<and> length rs = nat w \<and> ss ! 0 = s
          \<and> print g tcs d w tpf s
              = Some (ss ! nat w, Inr (map (\<lambda>r. if r = None then 0 else 1) rs))
          \<and> (\<forall>i<nat w.
                print_single g (islice tcs i (nat w)) i d tpf (ss ! i)
                  = Some (ss ! Suc i, rs ! i)
                \<and> map_option snd (print_single g (islice tcs i (nat w)) i d tpf s)
                  = Some (rs ! i)))
     \<and> (\<exists>ps all_testcases shards s2 codes.
            make_partitions g = Inr ps
          \<and> combine_scenarios_with_rounds g (combine_partitions_with_leaders g ps)
              = Inr all_testcases
          \<and> distribute (number_of_machines g) all_testcases = Inr shards
          \<and> print (if d then g\<lparr>folder_path := tmp\<rparr> else g)
               (shards ! nat (machine_index g - 1)) d w tpf (if d then mkdtemp tmp s else s)
              = Some (s2, Inr codes)
          \<and> run g s tmp (PyBool d) (PyInt w) (PyInt tpf)
              = Some (if d then g\<lparr>folder_path := tmp\<rparr> else g,
                      if d then cleanup tmp s2 else s2, None))"
proof
  have "1 \<le> w" using assms(4) by simp
  then show "\<exists>ss rs. length ss = Suc (nat w) \<and> length rs = nat w \<and> ss ! 0 = s
          \<and> print g tcs d w tpf s
              = Some (ss ! nat w, Inr (map (\<lambda>r. if r = None then 0 else 1) rs))
          \<and> (\<forall>i<nat w.
                print_single g (islice tcs i (nat w)) i d tpf (ss ! i)
                  = Some (ss ! Suc i, rs ! i)
                \<and> map_option snd (print_single g (islice tcs i (nat w)) i d tpf s)
                  = Some (rs ! i))"
    using assms(5) by (rule print_chain)
  show "\<exists>ps all_testcases shards s2 codes.
            make_partitions g = Inr ps
          \<and> combine_scenarios_with_rounds g (combine_partitions_with_leaders g ps)
              = Inr all_testcases
          \<and> distribute (number_of_machines g) all_testcases = Inr shards
          \<and> print (if d then g\<lparr>folder_path := tmp\<rparr> else g)
               (shards ! nat (machine_index g - 1)) d w tpf (if d then mkdtemp tmp s else s)
              = Some (s2, Inr codes)
          \<and> run g s tmp (PyBool d) (PyInt w) (PyInt tpf)
              = Some (if d then g\<lparr>folder_path := tmp\<rparr> else g,
                      if d then cleanup tmp s2 else s2, None)"
    by (rule run_on_machine_shard[OF assms])
qed

text \<open>
  A failed worker against C6 as it is written: for \<^verbatim>\<open>Generator(7, 1, 1, folder_path='out')\<close> and
  two workers, the write of worker 0 raises an OSError (exit code 1), worker 1 writes its
  file (exit code 0), and \<^verbatim>\<open>run\<close> returns with no exception.
\<close>

theorem worker_failure_counterexample:
  "init (PyInt 7) (PyInt 1) (PyInt 1) None (PyStr ''out'') (PyInt 1) (PyInt 1) = Inr gen7
   \<and> print_single gen7 [[(0, [[0..<9]])]] 0 False 1000 bad_fs = Some (bad_fs, Some OSError)
   \<and> print gen7 [[(0, [[0..<9]])], [(1, [[0..<9]])]] False 2 1000 bad_fs
      = Some (bad_fs\<lparr>files := [''out/testcase-1-1-0'' \<mapsto>
           [\<lparr>num_of_nodes = 7, num_of_twins = 2,
             scenarios = [([(1, [1, 8])], [(1, [[0..<9]])])]\<rparr>]]\<rparr>, Inr [1, 0])
   \<and> run gen7 bad_fs ''tmp'' (PyBool False) (PyInt 2) (PyInt 1000)
      = Some (gen7, bad_fs\<lparr>files := [''out/testcase-1-1-0'' \<mapsto>
           [\<lparr>num_of_nodes = 7, num_of_twins = 2,
             scenarios = [([(1, [1, 8])], [(1, [[0..<9]])])]\<rparr>]]\<rparr>, None)"
  using init_gen7 gen7_worker_0 gen7_print gen7_run by simp

theorem worker_failures_not_surfaced_witness:
  "wf gen7 \<and> testcases_length gen7 = Inr 2 \<and> \<not> float_overflow 2
   \<and> print_single gen7 (islice [[(0, [[0..<9]])], [(1, [[0..<9]])]] 0 2) 0 False 1000 bad_fs
      = Some (bad_fs, Some OSError)
   \<and> print_single gen7 (islice [[(0, [[0..<9]])], [(1, [[0..<9]])]] 1 2) 1 False 1000 bad_fs
      = Some (bad_fs\<lparr>files := [''out/testcase-1-1-0'' \<mapsto>
           [\<lparr>num_of_nodes = 7, num_of_twins = 2,
             scenarios = [([(1, [1, 8])], [(1, [[0..<9]])])]\<rparr>]]\<rparr>, None)
   \<and> print gen7 [[(0, [[0..<9]])], [(1, [[0..<9]])]] False 2 1000 bad_fs
      = Some (bad_fs\<lparr>files := [''out/testcase-1-1-0'' \<mapsto>
           [\<lparr>num_of_nodes = 7, num_of_twins = 2,
             scenarios = [([(1, [1, 8])], [(1, [[0..<9]])])]\<rparr>]]\<rparr>, Inr [1, 0])
   \<and> run gen7 bad_fs ''tmp'' (PyBool False) (PyInt 2) (PyInt 1000)
      = Some (gen7, bad_fs\<lparr>files := [''out/testcase-1-1-0'' \<mapsto>
           [\<lparr>num_of_nodes = 7, num_of_twins = 2,
             scenarios = [([(1, [1, 8])], [(1, [[0..<9]])])]\<rparr>]]\<rparr>, None)"
proof -
  let ?tcs = "[[(0, [[0..<9]])], [(Suc 0, [[0..<9]])]] :: testcase list"
  let ?X = "bad_fs\<lparr>files := [''out/testcase-1-1-0'' \<mapsto>
           [\<lparr>num_of_nodes = 7, num_of_twins = 2,
             scenarios = [([(Suc 0, [Suc 0, 8])], [(Suc 0, [[0..<9]])])]\<rparr>]]\<rparr>"
  have w: "wf gen7" by (rule init_wf[OF init_gen7])
  have o: "\<not> float_overflow 2" by (simp add: float_overflow_def)
  have two: "(0::int) < 2" and k: "(0::int) < 1000" by simp_all
  have sh: "islice ?tcs 0 2 = [[(0, [[0..<9]])]]" "islice ?tcs (Suc 0) 2 = [[(Suc 0, [[0..<9]])]]"
    by (simp_all add: islice_def)
  note th = worker_failures_not_surfaced[OF w gen7_testcases_length o two k,
      of bad_fs ?tcs False "''tmp''"]
  obtain ss rs where c: "length rs = nat 2" "ss ! 0 = bad_fs"
      "print gen7 ?tcs False 2 1000 bad_fs
         = Some (ss ! nat 2, Inr (map (\<lambda>r. if r = None then 0 else 1) rs))"
      "\<forall>i<nat 2. print_single gen7 (islice ?tcs i (nat 2)) i False 1000 (ss ! i)
                  = Some (ss ! Suc i, rs ! i)"
    using th by blast
  have "print_single gen7 (islice ?tcs 0 (nat 2)) 0 False 1000 (ss ! 0) = Some (ss ! Suc 0, rs ! 0)"
    using c(4) by simp
  then have s1: "ss ! Suc 0 = bad_fs" and r0: "rs ! 0 = Some OSError"
    using c(2) sh(1) gen7_worker_0 by simp_all
  have "print_single gen7 (islice ?tcs (Suc 0) (nat 2)) (Suc 0) False 1000 (ss ! Suc 0)
      = Some (ss ! Suc (Suc 0), rs ! Suc 0)"
    using c(4) by simp
  then have s2: "ss ! Suc (Suc 0) = ?X" and r1: "rs ! Suc 0 = None"
    using s1 sh(2) gen7_worker_1 by simp_all
  have "rs = [Some OSError, None]"
    using c(1) r0 r1 by (intro nth_equalityI) (auto simp: less_Suc_eq numeral_2_eq_2)
  then have p: "print gen7 ?tcs False 2 1000 bad_fs = Some (?X, Inr [1, 0])"
    using c(3) s2 by (simp add: numeral_2_eq_2)
  show ?thesis
    using w gen7_testcases_length o sh gen7_worker_0 gen7_worker_1 p gen7_run by simp
qed

text \<open>
  C10. A dry run of a constructed generator (forecast small enough for the float conversion,
  positive run parameters) returns with \<^verbatim>\<open>folder_path\<close> set to the temporary directory, which
  no longer exists when \<^verbatim>\<open>run\<close> returns, and nothing sets it back. A following run of the same
  instance that is not a dry run writes to that path: every worker with a non-empty share
  fails on its first write (exit code 1), and the run returns having written nothing,
  neither there nor in the directory the generator was configured with.
\<close>

theorem dryrun_changes_folder_path:
  assumes "init nn np nr flt fp mi nm = Inr g"
    and "testcases_length g = Inr t" and "\<not> float_overflow t"
    and "0 < w" and "0 < tpf" and "0 < w2" and "0 < tpf2"
  shows "\<exists>s'. run g s tmp (PyBool True) (PyInt w) (PyInt tpf)
         = Some (g\<lparr>folder_path := tmp\<rparr>, s', None)
     \<and> folder_path (g\<lparr>folder_path := tmp\<rparr>) = tmp
     \<and> tmp \<notin> dirs s'
     \<and> (\<forall>tcs. print (g\<lparr>folder_path := tmp\<rparr>) tcs False w2 tpf2 s'
           = Some (s', Inr (map (\<lambda>j. if islice tcs j (nat w2) = [] then 0 else 1) [0..<nat w2])))
     \<and> run (g\<lparr>folder_path := tmp\<rparr>) s' tmp2 (PyBool False) (PyInt w2) (PyInt tpf2)
         = Some (g\<lparr>folder_path := tmp\<rparr>, s', None)"
proof -
  let ?g' = "g\<lparr>folder_path := tmp\<rparr>"
  have w: "wf g" by (rule init_wf[OF assms(1)])
  obtain s2 where first: "run g s tmp (PyBool True) (PyInt w) (PyInt tpf)
      = Some (?g', cleanup tmp s2, None)"
    using run_returns[OF w assms(2,3,4,5), of s tmp True] by auto
  let ?s' = "cleanup tmp s2"
  have gone: "tmp \<notin> dirs ?s'"
    by (simp add: cleanup_def)
  then have missing: "folder_path ?g' \<notin> dirs ?s'"
    by simp
  have w2: "1 \<le> w2" using assms(6) by simp
  have workers: "\<forall>tcs. print ?g' tcs False w2 tpf2 ?s'
      = Some (?s', Inr (map (\<lambda>j. if islice tcs j (nat w2) = [] then 0 else 1) [0..<nat w2]))"
    using print_missing_folder[OF missing w2 assms(7)] by blast
  have w': "wf ?g'" using w by (simp only: wf_folder_path)
  have t': "testcases_length ?g' = Inr t"
    using assms(2) by (simp only: testcases_length_folder_path)
  obtain shard where "run ?g' ?s' tmp2 (PyBool False) (PyInt w2) (PyInt tpf2)
     = (case print ?g' shard False w2 tpf2 ?s' of
          None \<Rightarrow> None
        | Some (s2, Inl e) \<Rightarrow> Some (?g', s2, Some e)
        | Some (s2, Inr codes) \<Rightarrow> Some (?g', s2, None))"
    using run_reaches_print[OF w' t' assms(3,6,7), of ?s' tmp2 False] by auto
  then have second: "run ?g' ?s' tmp2 (PyBool False) (PyInt w2) (PyInt tpf2) = Some (?g', ?s', None)"
    using workers by simp
  show ?thesis
    by (intro exI[of _ ?s'] conjI first gone workers second) simp
qed

theorem dryrun_changes_folder_path_witness:
  "init (PyInt 7) (PyInt 1) (PyInt 1) None (PyStr ''out'') (PyInt 1) (PyInt 1) = Inr gen7
   \<and> testcases_length gen7 = Inr 2 \<and> \<not> float_overflow 2
   \<and> (\<exists>s'. run gen7 \<lparr>dirs = {''out''}, files = Map.empty\<rparr> ''tmp'' (PyBool True) (PyInt 2) (PyInt 1000)
              = Some (gen7\<lparr>folder_path := ''tmp''\<rparr>, s', None)
          \<and> ''tmp'' \<notin> dirs s'
          \<and> print (gen7\<lparr>folder_path := ''tmp''\<rparr>) [[(0, [[0..<9]])], [(1, [[0..<9]])]] False 2 1000 s'
              = Some (s', Inr [1, 1])
          \<and> run (gen7\<lparr>folder_path := ''tmp''\<rparr>) s' ''tmp2'' (PyBool False) (PyInt 2) (PyInt 1000)
              = Some (gen7\<lparr>folder_path := ''tmp''\<rparr>, s', None))"
proof -
  let ?g' = "gen7\<lparr>folder_path := ''tmp''\<rparr>"
  let ?tcs = "[[(0, [[0..<9]])], [(1, [[0..<9]])]] :: testcase list"
  have o: "\<not> float_overflow 2" by (simp add: float_overflow_def)
  have two: "(0::int) < 2" and k: "(0::int) < 1000" by simp_all
  obtain s' where s': "run gen7 \<lparr>dirs = {''out''}, files = Map.empty\<rparr> ''tmp'' (PyBool True) (PyInt 2) (PyInt 1000)
              = Some (?g', s', None)"
      "''tmp'' \<notin> dirs s'"
      "\<forall>tcs. print ?g' tcs False 2 1000 s'
           = Some (s', Inr (map (\<lambda>j. if islice tcs j (nat 2) = [] then 0 else 1) [0..<nat 2]))"
      "run ?g' s' ''tmp2'' (PyBool False) (PyInt 2) (PyInt 1000) = Some (?g', s', None)"
    using dryrun_changes_folder_path[OF init_gen7 gen7_testcases_length o two k two k,
        of "\<lparr>dirs = {''out''}, files = Map.empty\<rparr>" "''tmp''" "''tmp2''"] by blast
  have "map (\<lambda>j. if islice ?tcs j (nat 2) = [] then 0 else (1::nat)) [0..<nat 2] = [1, 1]"
    by (simp add: two_workers islice_def)
  then have "print ?g' ?tcs False 2 1000 s' = Some (s', Inr [1, 1])"
    using s'(3) by simp
  then show ?thesis
    using init_gen7 gen7_testcases_length o s'(1,2,4) by (intro conjI exI[of _ s']) simp_all
qed

end
